theory Spec2Isabelle
  imports Main "HOL-Library.Log_Nat"
begin

section \<open>Single and double precision arithmetic\<close>

text \<open>
  The simulation of \<^verbatim>\<open>src/main.cc\<close> stores \<^verbatim>\<open>elapsed\<close> in a \<^verbatim>\<open>float\<close> and
  adds the \<^verbatim>\<open>double\<close> literal \<^verbatim>\<open>0.02\<close> to it, so what a tick does depends on binary
  rounding. A finite floating point number is modelled by the rational it denotes, and
  every arithmetic operation of the source is the exact rational operation followed by
  rounding to the nearest representable number, ties to even (IEEE 754 binary32 with 24
  significant bits, binary64 with 53). Gradual underflow is modelled through the least
  exponent; overflow to infinity and NaN are not: all the numbers met below are far from
  both.
\<close>

definition pow2 :: "int \<Rightarrow> rat" where
  "pow2 e = (if 0 \<le> e then 2 ^ nat e else 1 / 2 ^ nat (- e))"

text \<open>\<open>ilog2 x\<close> is the binary exponent of \<open>x \<noteq> 0\<close>: \<open>2 ^ ilog2 x \<le> \<bar>x\<bar> < 2 ^ (ilog2 x + 1)\<close>.\<close>

definition ilog2 :: "rat \<Rightarrow> int" where
  "ilog2 x = (case quotient_of \<bar>x\<bar> of (a, b) \<Rightarrow>
     (let d = bitlen a - bitlen b
      in if pow2 d \<le> \<bar>x\<bar> then d else d - 1))"

definition round_half_even :: "rat \<Rightarrow> int" where
  "round_half_even q = (let f = \<lfloor>q\<rfloor>; r = q - of_int f
     in if r < 1 / 2 then f else if 1 / 2 < r then f + 1 else if even f then f else f + 1)"

text \<open>Rounding to \<open>p\<close> significant bits, the exponent not below \<open>emin\<close>.\<close>

definition fl_round :: "nat \<Rightarrow> int \<Rightarrow> rat \<Rightarrow> rat" where
  "fl_round p emin x = (if x = 0 then 0 else
     (let e = max (ilog2 x) emin; u = pow2 (e - int p + 1)
      in of_int (round_half_even (x / u)) * u))"

definition f32 :: "rat \<Rightarrow> rat" where
  "f32 = fl_round 24 (- 126)"

definition f64 :: "rat \<Rightarrow> rat" where
  "f64 = fl_round 53 (- 1022)"

text \<open>
  A certificate that \<open>x\<close> rounds to \<open>n * 2 ^ (e - p + 1)\<close>: \<open>e\<close> is the exponent of \<open>x\<close>
  and \<open>n\<close> the nearest integer to the scaled \<open>x\<close> (the even one at a tie). Checking a
  certificate takes comparisons of numerals only.
\<close>

definition fl_cert :: "nat \<Rightarrow> int \<Rightarrow> rat \<Rightarrow> int \<Rightarrow> int \<Rightarrow> bool" where
  "fl_cert p emin x e n \<longleftrightarrow>
     emin \<le> e \<and> pow2 e \<le> \<bar>x\<bar> \<and> \<bar>x\<bar> < pow2 (e + 1) \<and>
     (2 * \<bar>x / pow2 (e - int p + 1) - of_int n\<bar> < 1 \<or>
      2 * \<bar>x / pow2 (e - int p + 1) - of_int n\<bar> = 1 \<and> even n)"

section \<open>Data model\<close>

text \<open>
  \<^verbatim>\<open>glm::vec3\<close> is a triple of floats. The vector operations of the GLM library that
  the source calls are not part of the repository; the model takes them as a record of
  functions, so every theorem holds for whatever they compute.
\<close>

type_synonym vec3 = "rat \<times> rat \<times> rat"

type_synonym connection_vertex = "vec3 \<times> rat"

type_synonym city_vertex = "vec3 \<times> rat"

record glm =
  glm_distance :: "vec3 \<Rightarrow> vec3 \<Rightarrow> rat"
  glm_normalize :: "vec3 \<Rightarrow> vec3"
  glm_add :: "vec3 \<Rightarrow> vec3 \<Rightarrow> vec3"
  glm_sub :: "vec3 \<Rightarrow> vec3 \<Rightarrow> vec3"
  glm_scale :: "rat \<Rightarrow> vec3 \<Rightarrow> vec3"
  glm_scale_assign :: "vec3 \<Rightarrow> rat \<Rightarrow> vec3"

text \<open>
  \<^verbatim>\<open>struct connection\<close> and \<^verbatim>\<open>struct graph_vertex\<close>. The mesh is the vertex data
  handed to \<^verbatim>\<open>geometry::set_data\<close>. Every connection is owned by one
  \<^verbatim>\<open>unique_ptr\<close> of one vertex, so a graph is a list of vertices, each holding the
  list of its connections.
\<close>

record connection =
  active :: bool
  elapsed :: rat
  target_vertex :: int
  mesh :: "connection_vertex list"

record graph_vertex =
  position :: vec3
  connections :: "connection list"

type_synonym graph = "graph_vertex list"

section \<open>Edge geometry: \<^verbatim>\<open>build_connection_geometry\<close>\<close>

definition num_steps :: nat where
  "num_steps = 256"

text \<open>\<^verbatim>\<open>const float t = static_cast<float>(i) / (num_steps - 1)\<close>: a single precision division.\<close>

definition sample_t :: "nat \<Rightarrow> rat" where
  "sample_t i = f32 (of_nat i / of_nat (num_steps - 1))"

text \<open>
  \<^verbatim>\<open>const auto s = 1.0 + max_height * (1.0 - 4.0 * (t - 0.5) * (t - 0.5))\<close>: the literals
  are doubles, so every operation is a double precision one, on the float operands
  \<open>max_height\<close> and \<open>t\<close> converted exactly.
\<close>

definition connection_scale :: "rat \<Rightarrow> rat \<Rightarrow> rat" where
  "connection_scale max_height t =
     f64 (1 + f64 (max_height * f64 (1 - f64 (f64 (4 * f64 (t - 1 / 2)) * f64 (t - 1 / 2)))))"

definition build_connection_geometry :: "glm \<Rightarrow> vec3 \<Rightarrow> vec3 \<Rightarrow> rat \<Rightarrow> connection_vertex list" where
  "build_connection_geometry G from_normal to_normal max_height =
     map (\<lambda>i.
       let t = sample_t i;
           v = glm_normalize G (glm_add G from_normal (glm_scale G t (glm_sub G to_normal from_normal)));
           s = connection_scale max_height t
       in (glm_scale_assign G v s, t)) [0..<num_steps]"

section \<open>Graph construction: \<^verbatim>\<open>initialize_graph\<close> and \<^verbatim>\<open>initialize_connections\<close>\<close>

text \<open>
  The city list (\<^verbatim>\<open>get_cities\<close>) and the trigonometry of \<^verbatim>\<open>to_position\<close> come from
  outside; \<open>initialize_graph\<close> takes the list and the map from a city to its position.
\<close>

definition initialize_graph :: "('c \<Rightarrow> vec3) \<Rightarrow> 'c list \<Rightarrow> graph" where
  "initialize_graph to_position cities =
     map (\<lambda>city. \<lparr>position = to_position city, connections = []\<rparr>) cities"

definition min_distance :: rat where
  "min_distance = 3 / 4"

definition min_height :: rat where
  "min_height = f64 (1 / 20)"

definition max_height :: rat where
  "max_height = f64 (3 / 10)"

text \<open>
  \<^verbatim>\<open>min_height + (d / min_distance) * (max_height - min_height)\<close>, computed in double
  precision and converted to the \<^verbatim>\<open>float\<close> parameter of \<^verbatim>\<open>build_connection_geometry\<close>.
\<close>

definition connection_height :: "rat \<Rightarrow> rat" where
  "connection_height d =
     f32 (f64 (min_height + f64 (f64 (d / min_distance) * f64 (max_height - min_height))))"

text \<open>
  The body of the two nested loops, for the pair \<open>(i, j)\<close>. The state is the graph and
  the number of calls of \<^verbatim>\<open>std::rand\<close> made so far; \<open>rnd n\<close> is what call number \<open>n\<close>
  returns.
\<close>

definition connect_pair :: "glm \<Rightarrow> (nat \<Rightarrow> nat) \<Rightarrow> nat \<Rightarrow> nat \<Rightarrow> graph \<times> nat \<Rightarrow> graph \<times> nat" where
  "connect_pair G rnd i j = (\<lambda>(g, n).
     if i = j then (g, n)
     else
       let from_pos = position (g ! i); to_pos = position (g ! j);
           d = glm_distance G from_pos to_pos
       in if d < min_distance
          then
            let conn = \<lparr>active = (rnd n mod 150 = 0), elapsed = 0, target_vertex = int j,
                        mesh = build_connection_geometry G from_pos to_pos (connection_height d)\<rparr>
            in (g[i := (g ! i)\<lparr>connections := connections (g ! i) @ [conn]\<rparr>], Suc n)
          else (g, n))"

text \<open>
  The loop counters are C++ \<^verbatim>\<open>int\<close>s compared with \<^verbatim>\<open>graph_.size()\<close>: a graph of more
  than \<open>2^31 - 1\<close> vertices would overflow them, which is undefined behaviour (\<open>None\<close>).
\<close>

definition initialize_connections :: "glm \<Rightarrow> (nat \<Rightarrow> nat) \<Rightarrow> graph \<Rightarrow> graph option" where
  "initialize_connections G rnd g =
     (if 2147483647 < length g then None
      else Some (fst (fold (\<lambda>i. fold (connect_pair G rnd i) [0..<length g]) [0..<length g] (g, 0))))"

section \<open>Propagation: \<^verbatim>\<open>step_connections\<close>\<close>

text \<open>\<^verbatim>\<open>conn->elapsed += 0.02\<close>: a double precision addition, stored back as a float.\<close>

definition advance :: "rat \<Rightarrow> rat" where
  "advance e = f32 (f64 (e + f64 (1 / 50)))"

text \<open>The innermost loop: the scan of the target's connections, with its counter.\<close>

fun activate_connections :: "nat \<Rightarrow> connection list \<Rightarrow> connection list" where
  "activate_connections activated [] = []"
| "activate_connections activated (next_conn # rest) =
     (if \<not> active next_conn
      then next_conn\<lparr>active := True\<rparr> #
             (if Suc activated = 3 then rest else activate_connections (Suc activated) rest)
      else next_conn # activate_connections activated rest)"

text \<open>
  The body of the loop over the connections, for connection \<open>k\<close> of vertex \<open>i\<close>. Indexing
  \<^verbatim>\<open>graph_\<close> with a \<^verbatim>\<open>target_vertex\<close> out of range is undefined behaviour (\<open>None\<close>).
\<close>

definition step_connection :: "nat \<Rightarrow> nat \<Rightarrow> graph \<Rightarrow> graph option" where
  "step_connection i k g =
     (let conn = connections (g ! i) ! k in
      if \<not> active conn \<or> 1 \<le> elapsed conn then Some g
      else
        let conn' = conn\<lparr>elapsed := advance (elapsed conn)\<rparr>;
            g1 = g[i := (g ! i)\<lparr>connections := (connections (g ! i))[k := conn']\<rparr>]
        in if 1 \<le> elapsed conn'
           then
             (if 0 \<le> target_vertex conn' \<and> target_vertex conn' < int (length g1)
              then
                let t = nat (target_vertex conn')
                in Some (g1[t := (g1 ! t)\<lparr>connections :=
                                   activate_connections 0 (connections (g1 ! t))\<rparr>])
              else None)
           else Some g1)"

text \<open>A range-based \<^verbatim>\<open>for\<close> whose body may fail.\<close>

fun for_each :: "('a \<Rightarrow> 's \<Rightarrow> 's option) \<Rightarrow> 'a list \<Rightarrow> 's \<Rightarrow> 's option" where
  "for_each f [] s = Some s"
| "for_each f (x # xs) s = (case f x s of None \<Rightarrow> None | Some s' \<Rightarrow> for_each f xs s')"

definition step_vertex :: "nat \<Rightarrow> graph \<Rightarrow> graph option" where
  "step_vertex i g = for_each (step_connection i) [0..<length (connections (g ! i))] g"

definition step_connections :: "graph \<Rightarrow> graph option" where
  "step_connections g = for_each step_vertex [0..<length g] g"

text \<open>\<open>ticks n\<close>: \<^verbatim>\<open>step_connections\<close> called on \<open>n\<close> successive frames.\<close>

fun ticks :: "nat \<Rightarrow> graph \<Rightarrow> graph option" where
  "ticks 0 g = Some g"
| "ticks (Suc n) g = (case step_connections g of None \<Rightarrow> None | Some g' \<Rightarrow> ticks n g')"

section \<open>Consumers: \<^verbatim>\<open>update_cities_mesh\<close> and \<^verbatim>\<open>render_connections\<close>\<close>

text \<open>
  \<^verbatim>\<open>std::max_element\<close> with the comparison \<^verbatim>\<open>a->elapsed < b->elapsed\<close>: the first of the
  largest elements; \<open>largest\<close> is the candidate so far.
\<close>

fun max_element :: "connection \<Rightarrow> connection list \<Rightarrow> connection" where
  "max_element largest [] = largest"
| "max_element largest (c # cs) = max_element (if elapsed largest < elapsed c then c else largest) cs"

text \<open>\<^verbatim>\<open>std::min(a, b)\<close> returns \<open>b\<close> when \<open>b < a\<close> and \<open>a\<close> otherwise.\<close>

definition std_min :: "rat \<Rightarrow> rat \<Rightarrow> rat" where
  "std_min a b = (if b < a then b else a)"

text \<open>
  The loop of \<^verbatim>\<open>update_cities_mesh\<close>; the state is what has been written through
  \<^verbatim>\<open>vert_data\<close> so far and \<^verbatim>\<open>num_active_cities_\<close>.
\<close>

fun update_cities_loop :: "graph \<Rightarrow> city_vertex list \<times> nat \<Rightarrow> city_vertex list \<times> nat" where
  "update_cities_loop [] (vert_data, num_active_cities) = (vert_data, num_active_cities)"
| "update_cities_loop (vertex # vs) (vert_data, num_active_cities) =
     (case connections vertex of
        [] \<Rightarrow> update_cities_loop vs (vert_data, num_active_cities)
      | c # cs \<Rightarrow>
          let e = elapsed (max_element c cs)
          in if e = 0 then update_cities_loop vs (vert_data, num_active_cities)
             else
               let alpha = std_min 1 (f32 (e * 2))
               in update_cities_loop vs
                    (vert_data @ [(position vertex, alpha)], Suc num_active_cities))"

definition update_cities_mesh :: "graph \<Rightarrow> city_vertex list \<times> nat" where
  "update_cities_mesh g = update_cities_loop g ([], 0)"

text \<open>
  The draw calls of \<^verbatim>\<open>render_connections\<close> for the connections, in order: the value
  given to the uniform \<^verbatim>\<open>tex_offset\<close> and the mesh drawn.
\<close>

definition render_connections :: "graph \<Rightarrow> (rat \<times> connection_vertex list) list" where
  "render_connections g =
     concat (map (\<lambda>vertex. map (\<lambda>conn. (elapsed conn, mesh conn))
                              (filter active (connections vertex))) g)"

section \<open>The values of \<^verbatim>\<open>elapsed\<close>\<close>

text \<open>
  The numbers that \<^verbatim>\<open>elapsed\<close> takes: it starts at 0 and \<open>advance\<close> is applied while it
  is below 1. Entry \<open>k\<close> is the value after \<open>k\<close> additions; the last one, after 51
  additions, is the first that is not below 1. The second table holds, for each addition,
  the rounding certificates of its double precision sum and of the conversion of that
  sum to a float (exponent and significand of each).
\<close>

definition elapsed_values :: "rat list" where
  "elapsed_values = [
     0,
     5368709 / 268435456,
     5368709 / 134217728,
     16106127 / 268435456,
     5368709 / 67108864,
     13421773 / 134217728,
     1006633 / 8388608,
     9395241 / 67108864,
     5368709 / 33554432,
     12079595 / 67108864,
     3355443 / 16777216,
     14763949 / 67108864,
     8053063 / 33554432,
     1090519 / 4194304,
     9395241 / 33554432,
     5033165 / 16777216,
     10737419 / 33554432,
     2852127 / 8388608,
     12079597 / 33554432,
     6375343 / 16777216,
     13421775 / 33554432,
     220201 / 524288,
     14763953 / 33554432,
     7717521 / 16777216,
     16106131 / 33554432,
     4194305 / 8388608,
     4362077 / 8388608,
     4529849 / 8388608,
     4697621 / 8388608,
     4865393 / 8388608,
     5033165 / 8388608,
     5200937 / 8388608,
     5368709 / 8388608,
     5536481 / 8388608,
     5704253 / 8388608,
     5872025 / 8388608,
     6039797 / 8388608,
     6207569 / 8388608,
     6375341 / 8388608,
     6543113 / 8388608,
     6710885 / 8388608,
     6878657 / 8388608,
     7046429 / 8388608,
     7214201 / 8388608,
     7381973 / 8388608,
     7549745 / 8388608,
     7717517 / 8388608,
     7885289 / 8388608,
     8053061 / 8388608,
     8220833 / 8388608,
     8388605 / 8388608,
     8556377 / 8388608]"

definition advance_certs :: "(int \<times> int \<times> int \<times> int) list" where
  "advance_certs = [
     (- 6, 5764607523034235, - 6, 10737418),
     (- 5, 5764607458609726, - 5, 10737418),
     (- 5, 8646911155702334, - 5, 16106127),
     (- 4, 5764607426397471, - 4, 10737418),
     (- 4, 7205759274943775, - 4, 13421773),
     (- 4, 8646911391925535, - 4, 16106128),
     (- 3, 5044031754453647, - 3, 9395241),
     (- 3, 5764607544509071, - 3, 10737418),
     (- 3, 6485183334564495, - 3, 12079595),
     (- 3, 7205759124619919, - 3, 13421772),
     (- 3, 7926334914675343, - 3, 14763949),
     (- 3, 8646910704730767, - 3, 16106126),
     (- 2, 4683743247393096, - 2, 8724152),
     (- 2, 5044031410856264, - 2, 9395241),
     (- 2, 5404319574319432, - 2, 10066330),
     (- 2, 5764607737782600, - 2, 10737419),
     (- 2, 6124895901245768, - 2, 11408508),
     (- 2, 6485184064708936, - 2, 12079597),
     (- 2, 6845472228172104, - 2, 12750686),
     (- 2, 7205760391635272, - 2, 13421775),
     (- 2, 7566048555098440, - 2, 14092864),
     (- 2, 7926336718561608, - 2, 14763953),
     (- 2, 8286624882024776, - 2, 15435042),
     (- 2, 8646913045487944, - 2, 16106131),
     (- 1, 4503600604475556, - 1, 8388610),
     (- 1, 4683744686207140, - 1, 8724154),
     (- 1, 4863888499503268, - 1, 9059698),
     (- 1, 5044032312799396, - 1, 9395242),
     (- 1, 5224176126095524, - 1, 9730786),
     (- 1, 5404319939391652, - 1, 10066330),
     (- 1, 5584463752687780, - 1, 10401874),
     (- 1, 5764607565983908, - 1, 10737418),
     (- 1, 5944751379280036, - 1, 11072962),
     (- 1, 6124895192576164, - 1, 11408506),
     (- 1, 6305039005872292, - 1, 11744050),
     (- 1, 6485182819168420, - 1, 12079594),
     (- 1, 6665326632464548, - 1, 12415138),
     (- 1, 6845470445760676, - 1, 12750682),
     (- 1, 7025614259056804, - 1, 13086226),
     (- 1, 7205758072352932, - 1, 13421770),
     (- 1, 7385901885649060, - 1, 13757314),
     (- 1, 7566045698945188, - 1, 14092858),
     (- 1, 7746189512241316, - 1, 14428402),
     (- 1, 7926333325537444, - 1, 14763946),
     (- 1, 8106477138833572, - 1, 15099490),
     (- 1, 8286620952129700, - 1, 15435034),
     (- 1, 8466764765425828, - 1, 15770578),
     (- 1, 8646908578721956, - 1, 16106122),
     (- 1, 8827052392018084, - 1, 16441666),
     (- 1, 9007196205314212, - 1, 16777210),
     (0, 4593670009305170, 0, 8556377)]"

definition advance_cert :: "rat \<Rightarrow> int \<times> int \<times> int \<times> int \<Rightarrow> rat \<Rightarrow> bool" where
  "advance_cert x c y = (case c of (e1, n1, e2, n2) \<Rightarrow>
     fl_cert 53 (- 1022) (x + 5764607523034235 / 288230376151711744) e1 n1 \<and>
     fl_cert 24 (- 126) (of_int n1 * pow2 (e1 - 52)) e2 n2 \<and>
     y = of_int n2 * pow2 (e2 - 23))"

section \<open>Relations between the states of a connection\<close>

text \<open>
  What one execution of the loop body of \<^verbatim>\<open>step_connections\<close> may do to a connection:
  \<open>visited\<close> tells whether the connection is the one the body runs for.
\<close>

definition conn_step :: "bool \<Rightarrow> connection \<Rightarrow> connection \<Rightarrow> bool" where
  "conn_step visited c c' \<longleftrightarrow>
     target_vertex c' = target_vertex c \<and> mesh c' = mesh c \<and> (active c \<longrightarrow> active c') \<and>
     elapsed c' = (if visited \<and> active c \<and> elapsed c < 1 then advance (elapsed c) else elapsed c)"

text \<open>
  What a part of a tick may do to a connection: \<open>visited\<close> tells whether the loop has
  reached the connection already.
\<close>

definition conn_tick :: "bool \<Rightarrow> connection \<Rightarrow> connection \<Rightarrow> bool" where
  "conn_tick visited c c' \<longleftrightarrow>
     target_vertex c' = target_vertex c \<and> mesh c' = mesh c \<and> (active c \<longrightarrow> active c') \<and>
     (if visited
      then (active c \<and> elapsed c < 1 \<longrightarrow> elapsed c' = advance (elapsed c)) \<and>
           (elapsed c' = elapsed c \<or>
            elapsed c < 1 \<and> active c' \<and> elapsed c' = advance (elapsed c))
      else elapsed c' = elapsed c)"

text \<open>The same vertices, positions and numbers of connections, related pointwise by \<open>R\<close>.\<close>

definition graph_rel :: "(nat \<Rightarrow> nat \<Rightarrow> connection \<Rightarrow> connection \<Rightarrow> bool) \<Rightarrow> graph \<Rightarrow> graph \<Rightarrow> bool" where
  "graph_rel R g g' \<longleftrightarrow>
     length g' = length g \<and>
     (\<forall>v<length g.
        position (g' ! v) = position (g ! v) \<and>
        length (connections (g' ! v)) = length (connections (g ! v)) \<and>
        (\<forall>m<length (connections (g ! v)).
           R v m (connections (g ! v) ! m) (connections (g' ! v) ! m)))"

definition targets_valid :: "graph \<Rightarrow> bool" where
  "targets_valid g \<longleftrightarrow>
     (\<forall>vertex\<in>set g. \<forall>conn\<in>set (connections vertex).
        0 \<le> target_vertex conn \<and> target_vertex conn < int (length g))"

text \<open>The number of inactive connections stored before position \<open>m\<close>.\<close>

definition inactive_before :: "connection list \<Rightarrow> nat \<Rightarrow> nat" where
  "inactive_before cs m = length (filter (\<lambda>c. \<not> active c) (take m cs))"

text \<open>The number of positions at which \<open>cs\<close> is inactive and \<open>cs'\<close> is active.\<close>

definition switched_on :: "connection list \<Rightarrow> connection list \<Rightarrow> nat" where
  "switched_on cs cs' = length (filter (\<lambda>(c, c'). \<not> active c \<and> active c') (zip cs cs'))"

section \<open>Example states\<close>

text \<open>
  A vertex whose only connection is one addition away from completing, and a target
  vertex with five connections of which the second is active already.
\<close>

definition idle_connection :: "int \<Rightarrow> connection" where
  "idle_connection j = \<lparr>active = False, elapsed = 0, target_vertex = j, mesh = []\<rparr>"

definition cascade_example :: graph where
  "cascade_example =
     [\<lparr>position = (1, 0, 0),
       connections = [\<lparr>active = True, elapsed = 8388605 / 8388608, target_vertex = 1, mesh = []\<rparr>]\<rparr>,
      \<lparr>position = (57 / 64, 3 / 8, 0),
       connections = [idle_connection 0, (idle_connection 0)\<lparr>active := True\<rparr>,
                      idle_connection 0, idle_connection 0, idle_connection 0]\<rparr>]"

section \<open>Descriptions used in the statements\<close>

text \<open>
  The connections that one pass of the inner loop of \<^verbatim>\<open>initialize_connections\<close> adds
  to vertex \<open>i\<close>: \<open>P\<close> is the list of the positions, \<open>n\<close> the number of calls of
  \<^verbatim>\<open>std::rand\<close> made before the pass and \<open>js\<close> the indices the loop goes through.
\<close>

fun new_connections :: "glm \<Rightarrow> (nat \<Rightarrow> nat) \<Rightarrow> vec3 list \<Rightarrow> nat \<Rightarrow> nat \<Rightarrow> nat list \<Rightarrow> connection list" where
  "new_connections G rnd P i n [] = []"
| "new_connections G rnd P i n (j # js) =
     (if i \<noteq> j \<and> glm_distance G (P ! i) (P ! j) < min_distance
      then \<lparr>active = (rnd n mod 150 = 0), elapsed = 0, target_vertex = int j,
            mesh = build_connection_geometry G (P ! i) (P ! j)
                     (connection_height (glm_distance G (P ! i) (P ! j)))\<rparr>
           # new_connections G rnd P i (Suc n) js
      else new_connections G rnd P i n js)"

definition all_connections :: "(connection \<Rightarrow> bool) \<Rightarrow> graph \<Rightarrow> bool" where
  "all_connections Q g \<longleftrightarrow> (\<forall>vertex\<in>set g. \<forall>conn\<in>set (connections vertex). Q conn)"

text \<open>
  What holds of a connection in every state the program reaches: its \<^verbatim>\<open>elapsed\<close> is one
  of the 52 values of the table, and it is 0 as long as the connection is inactive.
\<close>

definition conn_ok :: "connection \<Rightarrow> bool" where
  "conn_ok c \<longleftrightarrow> elapsed c \<in> set elapsed_values \<and> (\<not> active c \<longrightarrow> elapsed c = 0)"

text \<open>
  What any number of ticks may do to a connection, in a state the program reaches.
\<close>

definition conn_later :: "connection \<Rightarrow> connection \<Rightarrow> bool" where
  "conn_later c c' \<longleftrightarrow>
     target_vertex c' = target_vertex c \<and> mesh c' = mesh c \<and> (active c \<longrightarrow> active c') \<and>
     elapsed c \<le> elapsed c' \<and> (1 \<le> elapsed c \<longrightarrow> elapsed c' = elapsed c)"

text \<open>
  A graph of two vertices with one connection each, \<open>0 \<rightarrow> 1\<close> active with \<^verbatim>\<open>elapsed\<close> \<open>x\<close>
  and \<open>1 \<rightarrow> 0\<close> with activation flag \<open>b\<close> and \<^verbatim>\<open>elapsed\<close> \<open>y\<close>.
\<close>

definition two_vertex_state ::
  "vec3 \<Rightarrow> vec3 \<Rightarrow> connection_vertex list \<Rightarrow> connection_vertex list \<Rightarrow> rat \<Rightarrow> bool \<Rightarrow> rat \<Rightarrow> graph" where
  "two_vertex_state p0 p1 m01 m10 x b y =
     [\<lparr>position = p0,
       connections = [\<lparr>active = True, elapsed = x, target_vertex = 1, mesh = m01\<rparr>]\<rparr>,
      \<lparr>position = p1,
       connections = [\<lparr>active = b, elapsed = y, target_vertex = 0, mesh = m10\<rparr>]\<rparr>]"

text \<open>
  Three cities on a line, with coordinates that single precision represents: the first
  two at distance \<open>25 / 64\<close> of each other, the third at distances \<open>75 / 64\<close> and
  \<open>25 / 16\<close> of them. The stand-in for the library reports these distances, which are
  the Euclidean ones; its sums, differences and products are the exact ones and its
  normalization leaves a vector as it is, which is right for the unit vectors it is
  applied to where a sample is computed below. The sequence of random numbers seeds
  the first connection created only.
\<close>

definition example_glm :: glm where
  "example_glm = \<lparr>glm_distance =
       (\<lambda>a b. if a = b then 0
              else if a = (85 / 64, - (9 / 8), 0) \<or> b = (85 / 64, - (9 / 8), 0)
              then (if a = (1, 0, 0) \<or> b = (1, 0, 0) then 75 / 64 else 25 / 16)
              else 25 / 64),
     glm_normalize = (\<lambda>v. v),
     glm_add = (\<lambda>(a1, a2, a3) (b1, b2, b3). (a1 + b1, a2 + b2, a3 + b3)),
     glm_sub = (\<lambda>(a1, a2, a3) (b1, b2, b3). (a1 - b1, a2 - b2, a3 - b3)),
     glm_scale = (\<lambda>t (a1, a2, a3). (t * a1, t * a2, t * a3)),
     glm_scale_assign = (\<lambda>(a1, a2, a3) s. (a1 * s, a2 * s, a3 * s))\<rparr>"

definition example_rnd :: "nat \<Rightarrow> nat" where
  "example_rnd n = (if n = 0 then 150 else 1)"

definition example_cities :: "vec3 list" where
  "example_cities = [(1, 0, 0), (57 / 64, 3 / 8, 0)]"

definition example_mesh01 :: "connection_vertex list" where
  "example_mesh01 = build_connection_geometry example_glm (1, 0, 0) (57 / 64, 3 / 8, 0) (connection_height (25 / 64))"

definition example_mesh10 :: "connection_vertex list" where
  "example_mesh10 = build_connection_geometry example_glm (57 / 64, 3 / 8, 0) (1, 0, 0) (connection_height (25 / 64))"

definition example_state :: "rat \<Rightarrow> bool \<Rightarrow> rat \<Rightarrow> graph" where
  "example_state = two_vertex_state (1, 0, 0) (57 / 64, 3 / 8, 0) example_mesh01 example_mesh10"

definition three_cities :: "vec3 list" where
  "three_cities = [(1, 0, 0), (57 / 64, 3 / 8, 0), (85 / 64, - (9 / 8), 0)]"

definition three_state :: "rat \<Rightarrow> bool \<Rightarrow> rat \<Rightarrow> graph" where
  "three_state x b y = example_state x b y @ [\<lparr>position = (85 / 64, - (9 / 8), 0), connections = []\<rparr>]"

text \<open>
  The dynamic vertex producer in the words of its description: the largest \<^verbatim>\<open>elapsed\<close>
  among the connections of a vertex, the vertices that contribute an entry, and the
  entry as the source computes it.
\<close>

definition max_elapsed :: "graph_vertex \<Rightarrow> rat" where
  "max_elapsed vertex = Max (set (map elapsed (connections vertex)))"

definition contributes :: "graph_vertex \<Rightarrow> bool" where
  "contributes vertex \<longleftrightarrow> connections vertex \<noteq> [] \<and> max_elapsed vertex \<noteq> 0"

definition city_entry :: "graph_vertex \<Rightarrow> city_vertex" where
  "city_entry vertex = (position vertex, std_min 1 (f32 (max_elapsed vertex * 2)))"



section \<open>Facts about rounding\<close>

lemma pow2_power_int: "pow2 e = power_int 2 e"
  by (simp add: pow2_def power_int_def field_simps)

lemma pow2_pos: "0 < pow2 e"
  by (simp add: pow2_power_int)

lemma pow2_add: "pow2 (a + b) = pow2 a * pow2 b"
  by (simp add: pow2_power_int power_int_add)

lemma pow2_mono: "a \<le> b \<Longrightarrow> pow2 a \<le> pow2 b"
  by (simp add: pow2_power_int power_int_increasing)

lemma pow2_nat: "pow2 (int n) = 2 ^ n"
  by (simp add: pow2_def)

lemma pow2_unique:
  assumes "pow2 e \<le> x" "x < pow2 (e + 1)" "pow2 r \<le> x" "x < pow2 (r + 1)"
  shows "e = r"
proof (rule ccontr)
  assume "e \<noteq> r"
  then consider "e + 1 \<le> r" | "r + 1 \<le> e" by linarith
  then show False
  proof cases
    case 1
    from pow2_mono[OF 1] assms show False by linarith
  next
    case 2
    from pow2_mono[OF 2] assms show False by linarith
  qed
qed

lemma pow2_bitlen_le:
  assumes "0 < a"
  shows "pow2 (bitlen a - 1) \<le> of_int a"
proof -
  have "1 \<le> bitlen a" using assms by (simp add: bitlen_alt_def)
  then have "pow2 (bitlen a - 1) = of_int (2 ^ nat (bitlen a - 1))" by (simp add: pow2_def)
  also have "\<dots> \<le> of_int a" using bitlen_bounds[OF assms] by (simp only: of_int_le_iff)
  finally show ?thesis .
qed

lemma pow2_bitlen_gt:
  assumes "0 < a"
  shows "of_int a < pow2 (bitlen a)"
proof -
  have "1 \<le> bitlen a" using assms by (simp add: bitlen_alt_def)
  then have "pow2 (bitlen a) = of_int (2 ^ nat (bitlen a))" by (simp add: pow2_def)
  moreover have "(of_int a :: rat) < of_int (2 ^ nat (bitlen a))"
    using bitlen_bounds[OF assms] by (simp only: of_int_less_iff)
  ultimately show ?thesis by simp
qed

lemma ilog2_bounds:
  assumes "x \<noteq> 0"
  shows "pow2 (ilog2 x) \<le> \<bar>x\<bar> \<and> \<bar>x\<bar> < pow2 (ilog2 x + 1)"
proof -
  obtain a b where q: "quotient_of \<bar>x\<bar> = (a, b)" by (cases "quotient_of \<bar>x\<bar>")
  have b: "0 < b" using q quotient_of_denom_pos by blast
  have x: "\<bar>x\<bar> = of_int a / of_int b" using q quotient_of_div by blast
  have a: "0 < a"
  proof -
    have "0 < \<bar>x\<bar>" using assms by simp
    then have "0 < (of_int a :: rat) / of_int b" using x by simp
    then show ?thesis using b by (simp add: zero_less_divide_iff)
  qed
  define d where "d = bitlen a - bitlen b"
  have bpos: "0 < (of_int b :: rat)" using b by simp
  have lo: "pow2 (d - 1) < \<bar>x\<bar>"
  proof -
    have "pow2 (d - 1) * of_int b < pow2 (d - 1) * pow2 (bitlen b)"
      using pow2_bitlen_gt[OF b] pow2_pos[of "d - 1"] by simp
    also have "\<dots> = pow2 (bitlen a - 1)"
      by (simp add: pow2_add[symmetric] d_def)
    also have "\<dots> \<le> of_int a" by (rule pow2_bitlen_le[OF a])
    finally show ?thesis using bpos by (simp add: x pos_less_divide_eq)
  qed
  have hi: "\<bar>x\<bar> < pow2 (d + 1)"
  proof -
    have "of_int a < pow2 (bitlen a)" by (rule pow2_bitlen_gt[OF a])
    also have "\<dots> = pow2 (d + 1) * pow2 (bitlen b - 1)"
      by (simp add: pow2_add[symmetric] d_def)
    also have "\<dots> \<le> pow2 (d + 1) * of_int b"
      using pow2_bitlen_le[OF b] pow2_pos[of "d + 1"] by simp
    finally show ?thesis using bpos by (simp add: x pos_divide_less_eq)
  qed
  have il: "ilog2 x = (if pow2 d \<le> \<bar>x\<bar> then d else d - 1)"
    by (simp add: ilog2_def q d_def Let_def)
  show ?thesis
  proof (cases "pow2 d \<le> \<bar>x\<bar>")
    case True
    then show ?thesis using hi il by simp
  next
    case False
    then show ?thesis using lo il by simp
  qed
qed

lemma ilog2_eq:
  assumes "pow2 e \<le> \<bar>x\<bar>" "\<bar>x\<bar> < pow2 (e + 1)"
  shows "ilog2 x = e"
proof -
  have "x \<noteq> 0" using assms(1) pow2_pos[of e] by auto
  from ilog2_bounds[OF this] assms show ?thesis using pow2_unique by blast
qed

lemma round_half_even_eq:
  assumes "2 * \<bar>q - of_int n\<bar> < 1 \<or> (2 * \<bar>q - of_int n\<bar> = 1 \<and> even n)"
  shows "round_half_even q = n"
proof -
  define f where "f = \<lfloor>q\<rfloor>"
  have f1: "of_int f \<le> q" and f2: "q < of_int f + 1"
    unfolding f_def by linarith+
  have r: "round_half_even q =
      (if q - of_int f < 1 / 2 then f else if 1 / 2 < q - of_int f then f + 1
       else if even f then f else f + 1)"
    by (simp add: round_half_even_def Let_def f_def)
  have "\<bar>q - of_int n\<bar> \<le> 1 / 2" using assms by auto
  then have le: "q - of_int n \<le> 1 / 2" "- (q - of_int n) \<le> 1 / 2"
    by (rule abs_le_D1, rule abs_le_D2)
  consider "n \<le> f - 1" | "n = f" | "n = f + 1" | "f + 2 \<le> n" by linarith
  then show ?thesis
  proof cases
    case 1
    then have "(of_int n :: rat) \<le> of_int (f - 1)" by (simp only: of_int_le_iff)
    then have "1 \<le> q - of_int n" using f1 by simp
    then have False using le by simp
    then show ?thesis ..
  next
    case 2
    then show ?thesis using assms f1 f2 r by auto
  next
    case 3
    then show ?thesis using assms f1 f2 r by auto
  next
    case 4
    then have "(of_int (f + 2) :: rat) \<le> of_int n" by (simp only: of_int_le_iff)
    then have "1 < of_int n - q" using f2 by simp
    then have False using le by simp
    then show ?thesis ..
  qed
qed

lemma fl_round_cert:
  assumes "fl_cert p emin x e n"
  shows "fl_round p emin x = of_int n * pow2 (e - int p + 1)"
proof -
  from assms have e: "emin \<le> e" and lo: "pow2 e \<le> \<bar>x\<bar>" and hi: "\<bar>x\<bar> < pow2 (e + 1)"
    and n: "2 * \<bar>x / pow2 (e - int p + 1) - of_int n\<bar> < 1 \<or>
      2 * \<bar>x / pow2 (e - int p + 1) - of_int n\<bar> = 1 \<and> even n"
    by (simp_all add: fl_cert_def)
  have "x \<noteq> 0" using lo pow2_pos[of e] by auto
  moreover have "ilog2 x = e" using lo hi by (rule ilog2_eq)
  moreover have "round_half_even (x / pow2 (e - int p + 1)) = n" using n by (rule round_half_even_eq)
  ultimately show ?thesis using e by (simp add: fl_round_def Let_def max_def)
qed

lemma pow2_neg_numeral: "pow2 (- numeral k) = 1 / 2 ^ numeral k"
  by (simp add: pow2_def)

lemma pow2_numeral: "pow2 (numeral k) = 2 ^ numeral k"
  by (simp add: pow2_def)

lemma pow2_0: "pow2 0 = 1"
  by (simp add: pow2_def)

lemma pow2_1: "pow2 1 = 2"
  by (simp add: pow2_def)

lemma pow2_neg_1: "pow2 (- 1) = 1 / 2"
  by (simp add: pow2_def)

lemmas fl_cert_eval = fl_cert_def pow2_neg_numeral pow2_numeral pow2_0 pow2_1 pow2_neg_1

lemma f64_fiftieth: "f64 (1 / 50) = 5764607523034235 / 288230376151711744"
  unfolding f64_def
  by (rule trans[OF fl_round_cert[where e = "- 6" and n = 5764607523034235]])
     (simp_all add: fl_cert_eval)

lemma advance_by_cert:
  assumes "advance_cert x (e1, n1, e2, n2) y"
  shows "advance x = y"
proof -
  from assms have c1: "fl_cert 53 (- 1022) (x + 5764607523034235 / 288230376151711744) e1 n1"
    and c2: "fl_cert 24 (- 126) (of_int n1 * pow2 (e1 - 52)) e2 n2"
    and y: "y = of_int n2 * pow2 (e2 - 23)"
    by (simp_all add: advance_cert_def)
  have "f64 (x + f64 (1 / 50)) = f64 (x + 5764607523034235 / 288230376151711744)"
    by (simp only: f64_fiftieth)
  also have "\<dots> = of_int n1 * pow2 (e1 - 52)"
    using fl_round_cert[OF c1] by (simp add: f64_def)
  finally have "f64 (x + f64 (1 / 50)) = of_int n1 * pow2 (e1 - 52)" .
  then have "advance x = f32 (of_int n1 * pow2 (e1 - 52))"
    by (simp add: advance_def)
  also have "\<dots> = of_int n2 * pow2 (e2 - 23)"
    using fl_round_cert[OF c2] by (simp add: f32_def)
  finally show ?thesis using y by simp
qed

lemma advance_certs_ok:
  "list_all (\<lambda>(x, y, c). advance_cert x c y)
     (zip elapsed_values (zip (tl elapsed_values) advance_certs))"
  unfolding elapsed_values_def advance_certs_def
  by (simp add: advance_cert_def fl_cert_eval)

lemma length_elapsed_values: "length elapsed_values = 52"
  by (simp add: elapsed_values_def)

lemma length_advance_certs: "length advance_certs = 51"
  by (simp add: advance_certs_def)

lemma advance_elapsed_values:
  assumes "k < 51"
  shows "advance (elapsed_values ! k) = elapsed_values ! Suc k"
proof -
  let ?zs = "zip elapsed_values (zip (tl elapsed_values) advance_certs)"
  have len: "length ?zs = 51"
    by (simp add: length_elapsed_values length_advance_certs)
  have nth: "?zs ! k = (elapsed_values ! k, elapsed_values ! Suc k, advance_certs ! k)"
    using assms by (simp add: length_elapsed_values length_advance_certs nth_tl)
  have "k < length ?zs" using assms by (simp only: len)
  then have "(\<lambda>(x, y, c). advance_cert x c y) (?zs ! k)"
    by (rule list_all_length[THEN iffD1, rule_format, OF advance_certs_ok])
  then have "advance_cert (elapsed_values ! k) (advance_certs ! k) (elapsed_values ! Suc k)"
    by (simp only: nth prod.case)
  then show ?thesis by (cases "advance_certs ! k") (auto intro: advance_by_cert)
qed

lemma fl_cert_exact:
  assumes "emin \<le> e" "1 \<le> p" "2 ^ (p - 1) \<le> \<bar>n\<bar>" "\<bar>n\<bar> < 2 ^ p"
  shows "fl_cert p emin (of_int n * pow2 (e - int p + 1)) e n"
proof -
  let ?u = "pow2 (e - int p + 1)"
  have u: "0 < ?u" by (rule pow2_pos)
  have "pow2 e = pow2 (int (p - 1) + (e - int p + 1))"
    using assms(2) by (simp add: of_nat_diff)
  then have lo: "pow2 e = 2 ^ (p - 1) * ?u"
    by (simp only: pow2_add pow2_nat)
  have "pow2 (e + 1) = pow2 (int p + (e - int p + 1))" by simp
  then have hi: "pow2 (e + 1) = 2 ^ p * ?u"
    by (simp only: pow2_add pow2_nat)
  have x: "\<bar>of_int n * ?u\<bar> = of_int \<bar>n\<bar> * ?u"
    using u by (simp add: abs_mult)
  have n1: "(2 :: rat) ^ (p - 1) \<le> of_int \<bar>n\<bar>"
    using assms(3) by (metis of_int_le_iff of_int_numeral of_int_power)
  have n2: "(of_int \<bar>n\<bar> :: rat) < 2 ^ p"
    using assms(4) by (metis of_int_less_iff of_int_numeral of_int_power)
  have "pow2 e \<le> \<bar>of_int n * ?u\<bar>"
    unfolding lo x using n1 u by simp
  moreover have "\<bar>of_int n * ?u\<bar> < pow2 (e + 1)"
    unfolding hi x using n2 u by simp
  moreover have "of_int n * ?u / ?u = of_int n" using u by simp
  ultimately show ?thesis using assms(1) by (simp add: fl_cert_def)
qed

lemma f32_exact:
  assumes "- 126 \<le> e" "8388608 \<le> n" "n < 16777216"
  shows "f32 (of_int n * pow2 (e - 23)) = of_int n * pow2 (e - 23)"
proof -
  have "fl_cert 24 (- 126) (of_int n * pow2 (e - int 24 + 1)) e n"
    by (rule fl_cert_exact) (use assms in simp_all)
  from fl_round_cert[OF this] show ?thesis by (simp add: f32_def)
qed

lemma advance_certs_range:
  "list_all (\<lambda>(e1, n1, e2, n2). - 126 \<le> e2 \<and> 8388608 \<le> n2 \<and> n2 < 16777216) advance_certs"
  by (simp add: advance_certs_def)

lemma elapsed_values_float:
  assumes "k < 51"
  shows "\<exists>e n. - 126 \<le> e \<and> 8388608 \<le> n \<and> n < 16777216 \<and>
     elapsed_values ! Suc k = of_int n * pow2 (e - 23)"
proof -
  obtain e1 n1 e2 n2 where c: "advance_certs ! k = (e1, n1, e2, n2)"
    by (cases "advance_certs ! k") auto
  let ?zs = "zip elapsed_values (zip (tl elapsed_values) advance_certs)"
  have len: "length ?zs = 51"
    by (simp add: length_elapsed_values length_advance_certs)
  have nth: "?zs ! k = (elapsed_values ! k, elapsed_values ! Suc k, advance_certs ! k)"
    using assms by (simp add: length_elapsed_values length_advance_certs nth_tl)
  have "k < length ?zs" using assms by (simp only: len)
  then have "(\<lambda>(x, y, c). advance_cert x c y) (?zs ! k)"
    by (rule list_all_length[THEN iffD1, rule_format, OF advance_certs_ok])
  then have "advance_cert (elapsed_values ! k) (e1, n1, e2, n2) (elapsed_values ! Suc k)"
    by (simp only: nth prod.case c)
  then have y: "elapsed_values ! Suc k = of_int n2 * pow2 (e2 - 23)"
    by (simp add: advance_cert_def)
  have "k < length advance_certs" using assms by (simp add: length_advance_certs)
  then have "(\<lambda>(e1, n1, e2, n2). - 126 \<le> e2 \<and> 8388608 \<le> n2 \<and> n2 < 16777216) (advance_certs ! k)"
    by (rule list_all_length[THEN iffD1, rule_format, OF advance_certs_range])
  then have "- 126 \<le> e2 \<and> 8388608 \<le> n2 \<and> n2 < 16777216"
    by (simp only: c prod.case)
  then show ?thesis using y by blast
qed

lemma f32_0: "f32 0 = 0"
  by (simp add: f32_def fl_round_def)


section \<open>Facts about the cascade scan\<close>

lemma length_activate_connections: "length (activate_connections n cs) = length cs"
  by (induction cs arbitrary: n) auto

lemma inactive_before_0: "inactive_before cs 0 = 0"
  by (simp add: inactive_before_def)

lemma inactive_before_Suc:
  "inactive_before (c # cs) (Suc m) = (if active c then 0 else 1) + inactive_before cs m"
  by (simp add: inactive_before_def)

lemma activate_connections_nth:
  assumes "n < 3" "m < length cs"
  shows "activate_connections n cs ! m =
     (if \<not> active (cs ! m) \<and> n + inactive_before cs m < 3
      then (cs ! m)\<lparr>active := True\<rparr> else cs ! m)"
  using assms
proof (induction cs arbitrary: n m)
  case Nil
  then show ?case by simp
next
  case (Cons c cs)
  show ?case
  proof (cases m)
    case 0
    then show ?thesis using Cons.prems by (simp add: inactive_before_0)
  next
    case (Suc m')
    then have m': "m' < length cs" using Cons.prems by simp
    show ?thesis
    proof (cases "active c")
      case True
      then show ?thesis
        using Cons.IH[OF Cons.prems(1) m'] Suc by (simp add: inactive_before_Suc)
    next
      case False
      show ?thesis
      proof (cases "Suc n = 3")
        case True
        then show ?thesis using False Suc by (simp add: inactive_before_Suc)
      next
        case ne: False
        then have "Suc n < 3" using Cons.prems by simp
        from Cons.IH[OF this m'] show ?thesis
          using False Suc ne by (simp add: inactive_before_Suc)
      qed
    qed
  qed
qed

lemma switched_on_same: "switched_on cs cs = 0"
  by (induction cs) (simp_all add: switched_on_def)

lemma switched_on_Cons:
  "switched_on (c # cs) (c' # cs') = (if \<not> active c \<and> active c' then 1 else 0) + switched_on cs cs'"
  by (simp add: switched_on_def)

lemma switched_on_activate_connections:
  assumes "n < 3"
  shows "switched_on cs (activate_connections n cs) =
     min (3 - n) (length (filter (\<lambda>c. \<not> active c) cs))"
  using assms
proof (induction cs arbitrary: n)
  case Nil
  then show ?case by (simp add: switched_on_def)
next
  case (Cons c cs)
  show ?case
  proof (cases "active c")
    case True
    then show ?thesis using Cons.IH[OF Cons.prems] by (simp add: switched_on_Cons)
  next
    case False
    show ?thesis
    proof (cases "Suc n = 3")
      case True
      then show ?thesis using False by (simp add: switched_on_Cons switched_on_same)
    next
      case ne: False
      then have "Suc n < 3" using Cons.prems by simp
      from Cons.IH[OF this] show ?thesis
        using False ne Cons.prems by (simp add: switched_on_Cons)
    qed
  qed
qed

lemma inactive_before_cong:
  assumes "map active cs' = map active cs"
  shows "inactive_before cs' m = inactive_before cs m"
proof -
  have "\<And>xs. length (filter (\<lambda>c. \<not> active c) xs) = length (filter Not (map active xs))"
    by (simp add: filter_map comp_def)
  then have "\<And>xs. inactive_before xs m = length (filter Not (take m (map active xs)))"
    by (simp add: inactive_before_def take_map)
  then show ?thesis using assms by simp
qed

lemma count_inactive_cong:
  assumes "map active cs' = map active cs"
  shows "length (filter (\<lambda>c. \<not> active c) cs') = length (filter (\<lambda>c. \<not> active c) cs)"
proof -
  have eq: "length (filter (\<lambda>c. \<not> active c) xs) = length (filter Not (map active xs))" for xs
    by (simp add: filter_map comp_def)
  have "length (filter (\<lambda>c. \<not> active c) cs') = length (filter Not (map active cs'))"
    by (rule eq)
  also have "\<dots> = length (filter Not (map active cs))"
    by (simp only: assms)
  also have "\<dots> = length (filter (\<lambda>c. \<not> active c) cs)"
    by (rule eq[symmetric])
  finally show ?thesis .
qed

lemma switched_on_cong:
  assumes "map active cs' = map active cs" "length ds = length cs"
  shows "switched_on cs' ds = switched_on cs ds"
  using assms
proof (induction cs arbitrary: cs' ds)
  case Nil
  then show ?case by (simp add: switched_on_def)
next
  case (Cons c cs)
  then obtain c' cs1 where c': "cs' = c' # cs1" by (cases cs') auto
  from Cons.prems obtain d ds1 where d: "ds = d # ds1" by (cases ds) auto
  show ?case using Cons.IH[of cs1 ds1] Cons.prems by (simp add: c' d switched_on_Cons)
qed

section \<open>Facts about loops that may fail\<close>

lemma for_each_prefix_aux:
  assumes "\<And>ys x zs s1. xs = ys @ x # zs \<Longrightarrow> P ys s1 \<Longrightarrow> \<exists>s2. f x s1 = Some s2 \<and> P (ys @ [x]) s2"
  shows "xs = ys @ zs \<Longrightarrow> P ys s1 \<Longrightarrow> \<exists>s'. for_each f zs s1 = Some s' \<and> P xs s'"
proof (induction zs arbitrary: ys s1)
  case Nil
  then show ?case by simp
next
  case (Cons x zs)
  from assms[OF Cons.prems(1) Cons.prems(2)] obtain s2
    where s2: "f x s1 = Some s2" "P (ys @ [x]) s2" by blast
  have "xs = (ys @ [x]) @ zs" using Cons.prems(1) by simp
  from Cons.IH[OF this s2(2)] show ?case using s2(1) by simp
qed

lemma for_each_prefix:
  assumes "P [] s"
    and "\<And>ys x zs s1. xs = ys @ x # zs \<Longrightarrow> P ys s1 \<Longrightarrow> \<exists>s2. f x s1 = Some s2 \<and> P (ys @ [x]) s2"
  shows "\<exists>s'. for_each f xs s = Some s' \<and> P xs s'"
  using for_each_prefix_aux[of xs P f "[]" xs s] assms by simp

section \<open>Facts about one execution of the loop body\<close>

lemma graph_rel_refl:
  assumes "\<And>v m c. R v m c c"
  shows "graph_rel R g g"
  using assms by (simp add: graph_rel_def)

lemma graph_rel_trans:
  assumes "graph_rel R g g1" "graph_rel S g1 g2"
    and "\<And>v m a b c. v < length g \<Longrightarrow> m < length (connections (g ! v)) \<Longrightarrow>
           R v m a b \<Longrightarrow> S v m b c \<Longrightarrow> T v m a c"
  shows "graph_rel T g g2"
  unfolding graph_rel_def
proof (intro conjI allI impI)
  show "length g2 = length g"
    using assms(1,2) by (simp add: graph_rel_def)
next
  fix v assume v: "v < length g"
  then have v1: "v < length g1" using assms(1) by (simp add: graph_rel_def)
  show "position (g2 ! v) = position (g ! v)"
    using assms(1,2) v v1 by (simp add: graph_rel_def)
  show "length (connections (g2 ! v)) = length (connections (g ! v))"
    using assms(1,2) v v1 by (simp add: graph_rel_def)
  fix m assume m: "m < length (connections (g ! v))"
  then have m1: "m < length (connections (g1 ! v))"
    using assms(1) v by (simp add: graph_rel_def)
  have "R v m (connections (g ! v) ! m) (connections (g1 ! v) ! m)"
    using assms(1) v m by (simp add: graph_rel_def)
  moreover have "S v m (connections (g1 ! v) ! m) (connections (g2 ! v) ! m)"
    using assms(2) v1 m1 by (simp add: graph_rel_def)
  ultimately show "T v m (connections (g ! v) ! m) (connections (g2 ! v) ! m)"
    using assms(3) v m by blast
qed

lemma graph_rel_weaken:
  assumes "graph_rel R g g'"
    and "\<And>v m c c'. v < length g \<Longrightarrow> m < length (connections (g ! v)) \<Longrightarrow>
           R v m c c' \<Longrightarrow> S v m c c'"
  shows "graph_rel S g g'"
  using assms unfolding graph_rel_def by auto

lemma graph_rel_weaken_nth:
  assumes "graph_rel R g g'"
    and "\<And>v m. v < length g \<Longrightarrow> m < length (connections (g ! v)) \<Longrightarrow>
           R v m (connections (g ! v) ! m) (connections (g' ! v) ! m) \<Longrightarrow>
           S v m (connections (g ! v) ! m) (connections (g' ! v) ! m)"
  shows "graph_rel S g g'"
  using assms unfolding graph_rel_def by auto

lemma graph_rel_length: "graph_rel R g g' \<Longrightarrow> length g' = length g"
  by (simp add: graph_rel_def)

lemma graph_rel_position: "graph_rel R g g' \<Longrightarrow> v < length g \<Longrightarrow> position (g' ! v) = position (g ! v)"
  by (simp add: graph_rel_def)

lemma graph_rel_connections:
  "graph_rel R g g' \<Longrightarrow> v < length g \<Longrightarrow> length (connections (g' ! v)) = length (connections (g ! v))"
  by (simp add: graph_rel_def)

lemma graph_rel_nth:
  "graph_rel R g g' \<Longrightarrow> v < length g \<Longrightarrow> m < length (connections (g ! v)) \<Longrightarrow>
   R v m (connections (g ! v) ! m) (connections (g' ! v) ! m)"
  by (simp add: graph_rel_def)

lemma advance_rel:
  assumes "i < length g" "k < length (connections (g ! i))"
    and "active (connections (g ! i) ! k)" "elapsed (connections (g ! i) ! k) < 1"
  shows "graph_rel (\<lambda>v m. conn_step (v = i \<and> m = k)) g
     (g[i := (g ! i)\<lparr>connections := (connections (g ! i))
        [k := (connections (g ! i) ! k)\<lparr>elapsed := advance (elapsed (connections (g ! i) ! k))\<rparr>]\<rparr>])"
  using assms unfolding graph_rel_def conn_step_def
  by (auto simp: nth_list_update)

lemma cascade_rel:
  assumes "t < length g"
  shows "graph_rel (\<lambda>v m. conn_step False) g
     (g[t := (g ! t)\<lparr>connections := activate_connections 0 (connections (g ! t))\<rparr>])"
  using assms unfolding graph_rel_def conn_step_def
  by (auto simp: nth_list_update length_activate_connections activate_connections_nth)

lemma conn_step_False: "conn_step b c c1 \<Longrightarrow> conn_step False c1 c2 \<Longrightarrow> conn_step b c c2"
  by (auto simp: conn_step_def)

lemma step_connection_effect:
  assumes i: "i < length g" and k: "k < length (connections (g ! i))"
    and t: "0 \<le> target_vertex (connections (g ! i) ! k)"
           "target_vertex (connections (g ! i) ! k) < int (length g)"
  shows "\<exists>g'. step_connection i k g = Some g' \<and> graph_rel (\<lambda>v m. conn_step (v = i \<and> m = k)) g g'"
proof -
  let ?c = "connections (g ! i) ! k"
  let ?g1 = "g[i := (g ! i)\<lparr>connections := (connections (g ! i))
        [k := ?c\<lparr>elapsed := advance (elapsed ?c)\<rparr>]\<rparr>]"
  let ?t = "nat (target_vertex ?c)"
  show ?thesis
  proof (cases "\<not> active ?c \<or> 1 \<le> elapsed ?c")
    case True
    then have "step_connection i k g = Some g" by (auto simp: step_connection_def)
    moreover have "graph_rel (\<lambda>v m. conn_step (v = i \<and> m = k)) g g"
      using True unfolding graph_rel_def conn_step_def by auto
    ultimately show ?thesis by simp
  next
    case False
    then have ac: "active ?c" "elapsed ?c < 1" by auto
    have r1: "graph_rel (\<lambda>v m. conn_step (v = i \<and> m = k)) g ?g1"
      by (rule advance_rel[OF i k ac])
    show ?thesis
    proof (cases "1 \<le> advance (elapsed ?c)")
      case compl: True
      have tl: "?t < length ?g1" using t by simp
      have "step_connection i k g =
          Some (?g1[?t := (?g1 ! ?t)\<lparr>connections := activate_connections 0 (connections (?g1 ! ?t))\<rparr>])"
        using False compl t by (simp add: step_connection_def Let_def)
      moreover have "graph_rel (\<lambda>v m. conn_step (v = i \<and> m = k)) g
          (?g1[?t := (?g1 ! ?t)\<lparr>connections := activate_connections 0 (connections (?g1 ! ?t))\<rparr>])"
        by (rule graph_rel_trans[OF r1 cascade_rel[OF tl]]) (rule conn_step_False)
      ultimately show ?thesis by simp
    next
      case notdone: False
      have "step_connection i k g = Some ?g1"
        using False notdone by (simp add: step_connection_def Let_def)
      then show ?thesis using r1 by simp
    qed
  qed
qed

section \<open>Facts about a whole tick\<close>

lemma conn_tick_step:
  "conn_tick b c0 c1 \<Longrightarrow> conn_step x c1 c2 \<Longrightarrow> \<not> (b \<and> x) \<Longrightarrow> conn_tick (b \<or> x) c0 c2"
  by (auto simp: conn_tick_def conn_step_def split: if_splits)

lemma targets_valid_nth:
  "targets_valid g \<Longrightarrow> v < length g \<Longrightarrow> m < length (connections (g ! v)) \<Longrightarrow>
   0 \<le> target_vertex (connections (g ! v) ! m) \<and>
   target_vertex (connections (g ! v) ! m) < int (length g)"
  unfolding targets_valid_def by (meson nth_mem)

lemma targets_valid_rel:
  assumes "targets_valid g" "graph_rel R g g'"
    and "\<And>v m c c'. R v m c c' \<Longrightarrow> target_vertex c' = target_vertex c"
  shows "targets_valid g'"
  unfolding targets_valid_def
proof (intro ballI)
  fix vertex conn
  assume "vertex \<in> set g'" "conn \<in> set (connections vertex)"
  then obtain v m where v: "v < length g'" "vertex = g' ! v"
    and m: "m < length (connections (g' ! v))" "conn = connections (g' ! v) ! m"
    by (metis in_set_conv_nth)
  have vg: "v < length g" using v assms(2) by (simp add: graph_rel_length)
  have mg: "m < length (connections (g ! v))" using m vg assms(2) by (simp add: graph_rel_connections)
  have "target_vertex conn = target_vertex (connections (g ! v) ! m)"
    using assms(3)[OF graph_rel_nth[OF assms(2) vg mg]] m by simp
  then show "0 \<le> target_vertex conn \<and> target_vertex conn < int (length g')"
    using targets_valid_nth[OF assms(1) vg mg] assms(2) by (simp add: graph_rel_length)
qed

lemma split_upt_distinct:
  assumes "[0..<n] = ys @ x # zs"
  shows "x < n \<and> x \<notin> set ys"
proof -
  have "distinct (ys @ x # zs)" using assms by (metis distinct_upt)
  moreover have "x \<in> set [0..<n]" using assms by simp
  ultimately show ?thesis by auto
qed

lemma step_vertex_effect:
  assumes valid: "targets_valid g0"
    and i: "i < length g0" "i \<notin> set ys"
    and rel: "graph_rel (\<lambda>v m. conn_tick (v \<in> set ys)) g0 g"
  shows "\<exists>g'. step_vertex i g = Some g' \<and> graph_rel (\<lambda>v m. conn_tick (v \<in> set (ys @ [i]))) g0 g'"
proof -
  let ?L = "length (connections (g ! i))"
  let ?P = "\<lambda>ks ga. graph_rel (\<lambda>v m. conn_tick (v \<in> set ys \<or> v = i \<and> m \<in> set ks)) g0 ga"
  have L: "?L = length (connections (g0 ! i))"
    using rel i by (simp add: graph_rel_connections)
  have start: "?P [] g" using rel by simp
  have step: "\<exists>gb. step_connection i k ga = Some gb \<and> ?P (ks @ [k]) gb"
    if split: "[0..<?L] = ks @ k # zs" and P: "?P ks ga" for ks k zs ga
  proof -
    from split_upt_distinct[OF split] have k: "k < ?L" "k \<notin> set ks" by auto
    have ia: "i < length ga" using P i by (simp add: graph_rel_length)
    have ka: "k < length (connections (ga ! i))"
      using P i k L by (simp add: graph_rel_connections)
    have k0: "k < length (connections (g0 ! i))" using k L by simp
    have "target_vertex (connections (ga ! i) ! k) = target_vertex (connections (g0 ! i) ! k)"
      using graph_rel_nth[OF P i(1) k0] by (simp add: conn_tick_def)
    then have t: "0 \<le> target_vertex (connections (ga ! i) ! k)"
        "target_vertex (connections (ga ! i) ! k) < int (length ga)"
      using targets_valid_nth[OF valid i(1) k0] P by (simp_all add: graph_rel_length)
    from step_connection_effect[OF ia ka t] obtain gb
      where gb: "step_connection i k ga = Some gb"
        and r: "graph_rel (\<lambda>v m. conn_step (v = i \<and> m = k)) ga gb" by blast
    have "graph_rel (\<lambda>v m. conn_tick ((v \<in> set ys \<or> v = i \<and> m \<in> set ks) \<or> (v = i \<and> m = k))) g0 gb"
      by (rule graph_rel_trans[OF P r]) (rule conn_tick_step, assumption, assumption, use i k in auto)
    then have "?P (ks @ [k]) gb"
      by (rule graph_rel_weaken) (auto simp: conn_tick_def)
    then show ?thesis using gb by blast
  qed
  have "\<exists>g'. for_each (step_connection i) [0..<?L] g = Some g' \<and> ?P [0..<?L] g'"
    by (rule for_each_prefix[where P = ?P, OF start]) (rule step)
  then obtain g' where g': "for_each (step_connection i) [0..<?L] g = Some g'" "?P [0..<?L] g'"
    by blast
  have "graph_rel (\<lambda>v m. conn_tick (v \<in> set (ys @ [i]))) g0 g'"
    by (rule graph_rel_weaken[OF g'(2)]) (use L in \<open>auto simp: conn_tick_def\<close>)
  then show ?thesis using g'(1) by (simp add: step_vertex_def)
qed

lemma step_connections_effect:
  assumes valid: "targets_valid g"
  shows "\<exists>g'. step_connections g = Some g' \<and> graph_rel (\<lambda>v m. conn_tick True) g g'"
proof -
  let ?P = "\<lambda>ys ga. graph_rel (\<lambda>v m. conn_tick (v \<in> set ys)) g ga"
  have start: "?P [] g"
    by (rule graph_rel_refl) (simp add: conn_tick_def)
  have step: "\<exists>gb. step_vertex i ga = Some gb \<and> ?P (ys @ [i]) gb"
    if split: "[0..<length g] = ys @ i # zs" and P: "?P ys ga" for ys i zs ga
    using step_vertex_effect[OF valid _ _ P] split_upt_distinct[OF split] by blast
  have "\<exists>g'. for_each step_vertex [0..<length g] g = Some g' \<and> ?P [0..<length g] g'"
    by (rule for_each_prefix[where P = ?P, OF start]) (rule step)
  then obtain g' where g': "for_each step_vertex [0..<length g] g = Some g'" "?P [0..<length g] g'"
    by blast
  have "graph_rel (\<lambda>v m. conn_tick True) g g'"
    by (rule graph_rel_weaken[OF g'(2)]) auto
  then show ?thesis using g'(1) by (simp add: step_connections_def)
qed

section \<open>Facts about the values of \<^verbatim>\<open>elapsed\<close>\<close>

lemma elapsed_values_0: "elapsed_values ! 0 = 0"
  by (simp add: elapsed_values_def)

lemma elapsed_values_below_1: "list_all (\<lambda>x. x < 1) (take 51 elapsed_values)"
  by (simp add: elapsed_values_def)

lemma elapsed_values_51: "elapsed_values ! 51 = 8556377 / 8388608"
  by (simp add: elapsed_values_def)

lemma elapsed_values_steps: "list_all (\<lambda>(x, y). x < y) (zip elapsed_values (tl elapsed_values))"
  by (simp add: elapsed_values_def)

lemma elapsed_values_increasing:
  assumes "k < 51"
  shows "elapsed_values ! k < elapsed_values ! Suc k"
proof -
  let ?zs = "zip elapsed_values (tl elapsed_values)"
  have "k < length ?zs" using assms by (simp add: length_elapsed_values)
  then have "(\<lambda>(x, y). x < y) (?zs ! k)"
    by (rule list_all_length[THEN iffD1, rule_format, OF elapsed_values_steps])
  moreover have "?zs ! k = (elapsed_values ! k, elapsed_values ! Suc k)"
    using assms by (simp add: length_elapsed_values nth_tl)
  ultimately show ?thesis by simp
qed

lemma elapsed_values_bounds: "list_all (\<lambda>x. 0 \<le> x \<and> x \<le> 8556377 / 8388608) elapsed_values"
  by (simp add: elapsed_values_def)

lemma elapsed_values_le: "x \<in> set elapsed_values \<Longrightarrow> x \<le> 8556377 / 8388608"
  using elapsed_values_bounds unfolding list_all_iff by blast

lemma elapsed_values_ge: "x \<in> set elapsed_values \<Longrightarrow> 0 \<le> x"
  using elapsed_values_bounds unfolding list_all_iff by blast

lemma zero_in_elapsed_values: "0 \<in> set elapsed_values"
  by (simp add: elapsed_values_def)

lemma elapsed_values_nth_below_1:
  assumes "k < 51"
  shows "elapsed_values ! k < 1"
proof -
  have "take 51 elapsed_values ! k < 1"
    using elapsed_values_below_1 assms
    by (simp add: list_all_length length_elapsed_values)
  then show ?thesis using assms by simp
qed

lemma advance_on_chain:
  assumes "x \<in> set elapsed_values" "x < 1"
  shows "advance x \<in> set elapsed_values \<and> x < advance x"
proof -
  from assms(1) obtain k where k: "k < 52" "x = elapsed_values ! k"
    by (metis in_set_conv_nth length_elapsed_values)
  have "k \<noteq> 51" using assms(2) k elapsed_values_51 by auto
  then have k51: "k < 51" using k by simp
  then have adv: "advance x = elapsed_values ! Suc k"
    using advance_elapsed_values k by simp
  have "elapsed_values ! k < elapsed_values ! Suc k"
    by (rule elapsed_values_increasing[OF k51])
  then show ?thesis using adv k k51 by (simp add: length_elapsed_values)
qed

lemma advance_last: "advance (8388605 / 8388608) = 8556377 / 8388608"
  using advance_elapsed_values[of 50] by (simp add: elapsed_values_def)

lemma advance_0: "advance 0 = 5368709 / 268435456"
  using advance_elapsed_values[of 0] by (simp add: elapsed_values_def)

section \<open>Facts about the construction of the graph\<close>

lemma map_position_update:
  assumes "i < length g"
  shows "map position (g[i := (g ! i)\<lparr>connections := cs\<rparr>]) = map position g"
  using assms by (simp add: map_update list_update_same_conv)

lemma connect_pair_fold:
  assumes "i < length g" "set js \<subseteq> {..<length g}"
  shows "fold (connect_pair G rnd i) js (g, n) =
     (g[i := (g ! i)\<lparr>connections :=
          connections (g ! i) @ new_connections G rnd (map position g) i n js\<rparr>],
      n + length (new_connections G rnd (map position g) i n js))"
  using assms
proof (induction js arbitrary: g n)
  case Nil
  then show ?case by (simp add: list_update_same_conv)
next
  case (Cons j js)
  then have j: "j < length g" and js: "set js \<subseteq> {..<length g}" by auto
  let ?d = "glm_distance G (position (g ! i)) (position (g ! j))"
  show ?case
  proof (cases "i \<noteq> j \<and> ?d < min_distance")
    case True
    let ?conn = "\<lparr>active = (rnd n mod 150 = 0), elapsed = 0, target_vertex = int j,
        mesh = build_connection_geometry G (position (g ! i)) (position (g ! j))
                 (connection_height ?d)\<rparr>"
    let ?g1 = "g[i := (g ! i)\<lparr>connections := connections (g ! i) @ [?conn]\<rparr>]"
    have step: "connect_pair G rnd i j (g, n) = (?g1, Suc n)"
      using True by (simp add: connect_pair_def Let_def)
    have len: "i < length ?g1" "set js \<subseteq> {..<length ?g1}"
      using Cons.prems(1) js by simp_all
    have pos: "map position ?g1 = map position g"
      by (rule map_position_update[OF Cons.prems(1)])
    have "fold (connect_pair G rnd i) (j # js) (g, n) = fold (connect_pair G rnd i) js (?g1, Suc n)"
      using step by simp
    also have "\<dots> = (?g1[i := (?g1 ! i)\<lparr>connections :=
          connections (?g1 ! i) @ new_connections G rnd (map position g) i (Suc n) js\<rparr>],
        Suc n + length (new_connections G rnd (map position g) i (Suc n) js))"
      using Cons.IH[OF len, of "Suc n"] by (simp only: pos)
    finally show ?thesis
      using True Cons.prems(1) j by simp
  next
    case False
    then have step: "connect_pair G rnd i j (g, n) = (g, n)"
      by (auto simp: connect_pair_def Let_def)
    show ?thesis
      using Cons.IH[OF Cons.prems(1) js, of n] False step Cons.prems(1) j by auto
  qed
qed

lemma connect_all_fold:
  assumes "distinct vs" "set vs \<subseteq> {..<length g}"
  shows "\<exists>g' n'. fold (\<lambda>i. fold (connect_pair G rnd i) [0..<length g]) vs (g, n) = (g', n') \<and>
     length g' = length g \<and> map position g' = map position g \<and>
     (\<forall>v<length g.
        if v \<in> set vs
        then \<exists>m. connections (g' ! v) =
               connections (g ! v) @ new_connections G rnd (map position g) v m [0..<length g]
        else connections (g' ! v) = connections (g ! v))"
  using assms
proof (induction vs rule: rev_induct)
  case Nil
  then show ?case by simp
next
  case (snoc i vs)
  then have d: "distinct vs" "set vs \<subseteq> {..<length g}" and i: "i < length g" "i \<notin> set vs"
    by auto
  from snoc.IH[OF d] obtain g1 n1
    where f: "fold (\<lambda>i. fold (connect_pair G rnd i) [0..<length g]) vs (g, n) = (g1, n1)"
      and len: "length g1 = length g" and pos: "map position g1 = map position g"
      and cs: "\<forall>v<length g.
        if v \<in> set vs
        then \<exists>m. connections (g1 ! v) =
               connections (g ! v) @ new_connections G rnd (map position g) v m [0..<length g]
        else connections (g1 ! v) = connections (g ! v)"
    by blast
  let ?new = "new_connections G rnd (map position g) i n1 [0..<length g]"
  let ?g2 = "g1[i := (g1 ! i)\<lparr>connections := connections (g1 ! i) @ ?new\<rparr>]"
  have i1: "i < length g1" "set [0..<length g] \<subseteq> {..<length g1}" using i len by auto
  have "fold (connect_pair G rnd i) [0..<length g] (g1, n1) = (?g2, n1 + length ?new)"
    using connect_pair_fold[OF i1, of G rnd n1] by (simp only: pos)
  then have f2: "fold (\<lambda>i. fold (connect_pair G rnd i) [0..<length g]) (vs @ [i]) (g, n) =
      (?g2, n1 + length ?new)"
    using f by simp
  have old: "connections (g1 ! i) = connections (g ! i)" using cs i by auto
  have "\<forall>v<length g.
        if v \<in> set (vs @ [i])
        then \<exists>m. connections (?g2 ! v) =
               connections (g ! v) @ new_connections G rnd (map position g) v m [0..<length g]
        else connections (?g2 ! v) = connections (g ! v)"
  proof (intro allI impI)
    fix v assume v: "v < length g"
    show "if v \<in> set (vs @ [i])
        then \<exists>m. connections (?g2 ! v) =
               connections (g ! v) @ new_connections G rnd (map position g) v m [0..<length g]
        else connections (?g2 ! v) = connections (g ! v)"
    proof (cases "v = i")
      case True
      then show ?thesis using i1 old by auto
    next
      case False
      then have "connections (?g2 ! v) = connections (g1 ! v)" by simp
      then show ?thesis using cs v False by auto
    qed
  qed
  moreover have "length ?g2 = length g" using len by simp
  moreover have "map position ?g2 = map position g"
    using map_position_update[OF i1(1)] pos by simp
  ultimately show ?case using f2 by blast
qed

lemma target_vertex_new_connections:
  "map target_vertex (new_connections G rnd P i n js) =
     map int (filter (\<lambda>j. j \<noteq> i \<and> glm_distance G (P ! i) (P ! j) < min_distance) js)"
  by (induction js arbitrary: n) auto

lemma mesh_new_connections:
  "map mesh (new_connections G rnd P i n js) =
     map (\<lambda>j. build_connection_geometry G (P ! i) (P ! j)
                 (connection_height (glm_distance G (P ! i) (P ! j))))
       (filter (\<lambda>j. j \<noteq> i \<and> glm_distance G (P ! i) (P ! j) < min_distance) js)"
  by (induction js arbitrary: n) auto

lemma new_connections_fresh:
  "c \<in> set (new_connections G rnd P i n js) \<Longrightarrow> elapsed c = 0 \<and> target_vertex c \<in> int ` set js"
  by (induction js arbitrary: n) (auto split: if_splits)

lemma initialize_connections_result:
  assumes "initialize_connections G rnd (initialize_graph to_position cities) = Some g"
  shows "length g = length cities"
    and "map position g = map to_position cities"
    and "v < length cities \<Longrightarrow> \<exists>m. connections (g ! v) =
          new_connections G rnd (map to_position cities) v m [0..<length cities]"
proof -
  let ?g0 = "initialize_graph to_position cities"
  have len0: "length ?g0 = length cities" by (simp add: initialize_graph_def)
  have pos0: "map position ?g0 = map to_position cities"
    by (simp add: initialize_graph_def comp_def)
  have cs0: "\<And>v. v < length cities \<Longrightarrow> connections (?g0 ! v) = []"
    by (simp add: initialize_graph_def)
  have g: "g = fst (fold (\<lambda>i. fold (connect_pair G rnd i) [0..<length ?g0]) [0..<length ?g0] (?g0, 0))"
    using assms by (simp add: initialize_connections_def split: if_splits)
  have "\<exists>g' n'. fold (\<lambda>i. fold (connect_pair G rnd i) [0..<length ?g0]) [0..<length ?g0] (?g0, 0) = (g', n') \<and>
     length g' = length ?g0 \<and> map position g' = map position ?g0 \<and>
     (\<forall>v<length ?g0.
        if v \<in> set [0..<length ?g0]
        then \<exists>m. connections (g' ! v) =
               connections (?g0 ! v) @ new_connections G rnd (map position ?g0) v m [0..<length ?g0]
        else connections (g' ! v) = connections (?g0 ! v))"
    by (rule connect_all_fold) auto
  then obtain g' n'
    where f: "fold (\<lambda>i. fold (connect_pair G rnd i) [0..<length ?g0]) [0..<length ?g0] (?g0, 0) = (g', n')"
      and len: "length g' = length ?g0" and pos: "map position g' = map position ?g0"
      and cs: "\<forall>v<length ?g0.
        if v \<in> set [0..<length ?g0]
        then \<exists>m. connections (g' ! v) =
               connections (?g0 ! v) @ new_connections G rnd (map position ?g0) v m [0..<length ?g0]
        else connections (g' ! v) = connections (?g0 ! v)"
    by blast
  have gg: "g = g'" using g f by simp
  show "length g = length cities" using gg len len0 by simp
  show "map position g = map to_position cities" using gg pos pos0 by simp
  show "\<exists>m. connections (g ! v) =
          new_connections G rnd (map to_position cities) v m [0..<length cities]"
    if "v < length cities"
    using cs[rule_format, of v] that gg cs0[OF that] by (simp add: len0 pos0)
qed

section \<open>Facts about the states the program reaches\<close>

lemma all_connections_nth:
  "all_connections Q g \<Longrightarrow> v < length g \<Longrightarrow> m < length (connections (g ! v)) \<Longrightarrow>
   Q (connections (g ! v) ! m)"
  unfolding all_connections_def by (meson nth_mem)

lemma all_connections_rel:
  assumes "all_connections Q g" "graph_rel R g g'"
    and "\<And>v m c c'. Q c \<Longrightarrow> R v m c c' \<Longrightarrow> Q' c'"
  shows "all_connections Q' g'"
  unfolding all_connections_def
proof (intro ballI)
  fix vertex conn
  assume "vertex \<in> set g'" "conn \<in> set (connections vertex)"
  then obtain v m where v: "v < length g'" "vertex = g' ! v"
    and m: "m < length (connections (g' ! v))" "conn = connections (g' ! v) ! m"
    by (metis in_set_conv_nth)
  have vg: "v < length g" using v assms(2) by (simp add: graph_rel_length)
  have mg: "m < length (connections (g ! v))" using m vg assms(2) by (simp add: graph_rel_connections)
  show "Q' conn"
    using assms(3)[OF all_connections_nth[OF assms(1) vg mg] graph_rel_nth[OF assms(2) vg mg]] m
    by simp
qed

lemma conn_ok_tick:
  assumes "conn_ok c" "conn_tick True c c'"
  shows "conn_ok c'"
proof -
  from assms(2) have act: "active c \<longrightarrow> active c'"
    and el: "elapsed c' = elapsed c \<or> elapsed c < 1 \<and> active c' \<and> elapsed c' = advance (elapsed c)"
    by (simp_all add: conn_tick_def)
  from el show ?thesis
  proof
    assume "elapsed c' = elapsed c"
    then show ?thesis using assms(1) act by (auto simp: conn_ok_def)
  next
    assume a: "elapsed c < 1 \<and> active c' \<and> elapsed c' = advance (elapsed c)"
    then have "advance (elapsed c) \<in> set elapsed_values"
      using advance_on_chain[of "elapsed c"] assms(1) by (simp add: conn_ok_def)
    then show ?thesis using a by (simp add: conn_ok_def)
  qed
qed

lemma conn_later_tick:
  assumes "conn_ok c" "conn_tick True c c'"
  shows "conn_later c c'"
proof -
  from assms(2) have el: "elapsed c' = elapsed c \<or> elapsed c < 1 \<and> active c' \<and> elapsed c' = advance (elapsed c)"
    by (simp add: conn_tick_def)
  have "elapsed c \<le> elapsed c' \<and> (1 \<le> elapsed c \<longrightarrow> elapsed c' = elapsed c)"
    using el advance_on_chain[of "elapsed c"] assms(1) by (auto simp: conn_ok_def)
  then show ?thesis using assms(2) by (simp add: conn_later_def conn_tick_def)
qed

lemma conn_later_refl: "conn_later c c"
  by (simp add: conn_later_def)

lemma conn_later_trans: "conn_later a b \<Longrightarrow> conn_later b c \<Longrightarrow> conn_later a c"
  by (auto simp: conn_later_def)

lemma tick_preserves:
  assumes "targets_valid g" "all_connections conn_ok g"
  shows "\<exists>g'. step_connections g = Some g' \<and> targets_valid g' \<and> all_connections conn_ok g' \<and>
     graph_rel (\<lambda>v m. conn_tick True) g g'"
proof -
  from step_connections_effect[OF assms(1)] obtain g'
    where g': "step_connections g = Some g'" and rel: "graph_rel (\<lambda>v m. conn_tick True) g g'"
    by blast
  have "targets_valid g'"
    by (rule targets_valid_rel[OF assms(1) rel]) (simp add: conn_tick_def)
  moreover have "all_connections conn_ok g'"
    by (rule all_connections_rel[OF assms(2) rel]) (rule conn_ok_tick)
  ultimately show ?thesis using g' rel by blast
qed

lemma graph_rel_later:
  assumes "all_connections conn_ok g" "graph_rel (\<lambda>v m. conn_tick True) g g'"
  shows "graph_rel (\<lambda>v m. conn_later) g g'"
  by (rule graph_rel_weaken_nth[OF assms(2)])
     (rule conn_later_tick[OF all_connections_nth[OF assms(1)]])

lemma ticks_effect:
  assumes "targets_valid g" "all_connections conn_ok g"
  shows "\<exists>g'. ticks n g = Some g' \<and> targets_valid g' \<and> all_connections conn_ok g' \<and>
     graph_rel (\<lambda>v m. conn_later) g g'"
  using assms
proof (induction n arbitrary: g)
  case 0
  have "graph_rel (\<lambda>v m. conn_later) g g"
    by (rule graph_rel_refl) (rule conn_later_refl)
  then show ?case using 0 by simp
next
  case (Suc n)
  from tick_preserves[OF Suc.prems] obtain g1
    where g1: "step_connections g = Some g1" "targets_valid g1" "all_connections conn_ok g1"
      and r1: "graph_rel (\<lambda>v m. conn_tick True) g g1"
    by blast
  from Suc.IH[OF g1(2,3)] obtain g'
    where g': "ticks n g1 = Some g'" "targets_valid g'" "all_connections conn_ok g'"
      and r2: "graph_rel (\<lambda>v m. conn_later) g1 g'"
    by blast
  have "graph_rel (\<lambda>v m. conn_later) g g'"
    by (rule graph_rel_trans[OF graph_rel_later[OF Suc.prems(2) r1] r2]) (rule conn_later_trans)
  then show ?case using g1(1) g' by simp
qed

lemma initial_state:
  assumes "initialize_connections G rnd (initialize_graph to_position cities) = Some g0"
  shows "targets_valid g0" and "all_connections (\<lambda>c. elapsed c = 0) g0"
    and "all_connections conn_ok g0"
proof -
  note r = initialize_connections_result[OF assms]
  have fresh: "elapsed conn = 0 \<and> 0 \<le> target_vertex conn \<and> target_vertex conn < int (length g0)"
    if "vertex \<in> set g0" "conn \<in> set (connections vertex)" for vertex conn
  proof -
    from that(1) obtain v where v: "v < length g0" "vertex = g0 ! v"
      by (metis in_set_conv_nth)
    then have "v < length cities" using r(1) by simp
    from r(3)[OF this] obtain m
      where "connections (g0 ! v) = new_connections G rnd (map to_position cities) v m [0..<length cities]"
      by blast
    then have "conn \<in> set (new_connections G rnd (map to_position cities) v m [0..<length cities])"
      using that(2) v by simp
    from new_connections_fresh[OF this] show ?thesis using r(1) by auto
  qed
  show "targets_valid g0" using fresh by (simp add: targets_valid_def)
  show z: "all_connections (\<lambda>c. elapsed c = 0) g0" using fresh by (simp add: all_connections_def)
  show "all_connections conn_ok g0"
    using z zero_in_elapsed_values by (simp add: all_connections_def conn_ok_def)
qed

lemma reachable_state:
  assumes "initialize_connections G rnd (initialize_graph to_position cities) = Some g0"
  shows "\<exists>g. ticks n g0 = Some g \<and> targets_valid g \<and> all_connections conn_ok g \<and>
     graph_rel (\<lambda>v m. conn_later) g0 g"
  by (rule ticks_effect[OF initial_state(1)[OF assms] initial_state(3)[OF assms]])

lemma step_connection_given:
  assumes "targets_valid g" "i < length g" "k < length (connections (g ! i))"
    and "step_connection i k g = Some g'"
  shows "graph_rel (\<lambda>v m. conn_step (v = i \<and> m = k)) g g'"
  using step_connection_effect[OF assms(2,3)] targets_valid_nth[OF assms(1,2,3)] assms(4)
  by auto

section \<open>Two vertices within the threshold of each other\<close>

lemma two_vertex_init:
  assumes "glm_distance G (to_position c0) (to_position c1) < min_distance"
    and "glm_distance G (to_position c1) (to_position c0) < min_distance"
    and "rnd 0 mod 150 = 0" "rnd 1 mod 150 \<noteq> 0"
  shows "initialize_connections G rnd (initialize_graph to_position [c0, c1]) =
     Some (two_vertex_state (to_position c0) (to_position c1)
       (build_connection_geometry G (to_position c0) (to_position c1)
          (connection_height (glm_distance G (to_position c0) (to_position c1))))
       (build_connection_geometry G (to_position c1) (to_position c0)
          (connection_height (glm_distance G (to_position c1) (to_position c0))))
       0 False 0)"
  using assms
  by (simp add: initialize_connections_def initialize_graph_def connect_pair_def
      two_vertex_state_def Let_def)

lemma two_vertex_step_running:
  assumes "x < 1" "advance x < 1"
  shows "step_connections (two_vertex_state p0 p1 m01 m10 x False 0) =
     Some (two_vertex_state p0 p1 m01 m10 (advance x) False 0)"
  using assms
  by (simp add: step_connections_def step_vertex_def step_connection_def
      two_vertex_state_def Let_def)

lemma two_vertex_step_completing:
  assumes "x < 1" "1 \<le> advance x"
  shows "step_connections (two_vertex_state p0 p1 m01 m10 x False 0) =
     Some (two_vertex_state p0 p1 m01 m10 (advance x) True (advance 0))"
  using assms
  by (simp add: step_connections_def step_vertex_def step_connection_def
      two_vertex_state_def Let_def advance_0)

lemma two_vertex_running:
  assumes "k + n \<le> 50"
  shows "ticks n (two_vertex_state p0 p1 m01 m10 (elapsed_values ! k) False 0) =
     Some (two_vertex_state p0 p1 m01 m10 (elapsed_values ! (k + n)) False 0)"
  using assms
proof (induction n arbitrary: k)
  case 0
  then show ?case by simp
next
  case (Suc n)
  have k: "k < 51" "Suc k < 51" using Suc.prems by simp_all
  have "step_connections (two_vertex_state p0 p1 m01 m10 (elapsed_values ! k) False 0) =
      Some (two_vertex_state p0 p1 m01 m10 (elapsed_values ! Suc k) False 0)"
    using two_vertex_step_running[of "elapsed_values ! k" p0 p1 m01 m10]
      elapsed_values_nth_below_1[OF k(1)] elapsed_values_nth_below_1[OF k(2)]
      advance_elapsed_values[OF k(1)]
    by simp
  moreover have "Suc k + n \<le> 50" using Suc.prems by simp
  ultimately show ?case using Suc.IH[of "Suc k"] by simp
qed

lemma elapsed_values_50: "elapsed_values ! 50 = 8388605 / 8388608"
  by (simp add: elapsed_values_def)

lemma two_vertex_50:
  "ticks 50 (two_vertex_state p0 p1 m01 m10 0 False 0) =
     Some (two_vertex_state p0 p1 m01 m10 (8388605 / 8388608) False 0)"
  using two_vertex_running[of 0 50 p0 p1 m01 m10]
  by (simp add: elapsed_values_0 elapsed_values_50)

lemma ticks_Suc_end:
  "ticks (Suc n) g = (case ticks n g of None \<Rightarrow> None | Some g' \<Rightarrow> step_connections g')"
proof (induction n arbitrary: g)
  case 0
  show ?case by (simp split: option.splits)
next
  case (Suc n)
  show ?case
  proof (cases "step_connections g")
    case None
    then show ?thesis by simp
  next
    case (Some g1)
    then have "ticks (Suc (Suc n)) g = ticks (Suc n) g1" by simp
    also have "\<dots> = (case ticks n g1 of None \<Rightarrow> None | Some g' \<Rightarrow> step_connections g')"
      by (rule Suc.IH)
    also have "ticks n g1 = ticks (Suc n) g" using Some by simp
    finally show ?thesis .
  qed
qed

lemma two_vertex_51:
  "ticks 51 (two_vertex_state p0 p1 m01 m10 0 False 0) =
     Some (two_vertex_state p0 p1 m01 m10 (8556377 / 8388608) True (5368709 / 268435456))"
proof -
  have "ticks (Suc 50) (two_vertex_state p0 p1 m01 m10 0 False 0) =
      step_connections (two_vertex_state p0 p1 m01 m10 (8388605 / 8388608) False 0)"
    by (simp only: ticks_Suc_end two_vertex_50 option.case)
  also have "\<dots> = Some (two_vertex_state p0 p1 m01 m10 (advance (8388605 / 8388608)) True (advance 0))"
    by (rule two_vertex_step_completing) (simp_all add: advance_last)
  finally show ?thesis by (simp add: advance_last advance_0)
qed

lemma example_init:
  "initialize_connections example_glm example_rnd (initialize_graph id example_cities) =
     Some (example_state 0 False 0)"
proof -
  have "initialize_connections example_glm example_rnd (initialize_graph id [(1, 0, 0), (57 / 64, 3 / 8, 0)]) =
     Some (two_vertex_state (1, 0, 0) (57 / 64, 3 / 8, 0)
       (build_connection_geometry example_glm (1, 0, 0) (57 / 64, 3 / 8, 0)
          (connection_height (glm_distance example_glm (1, 0, 0) (57 / 64, 3 / 8, 0))))
       (build_connection_geometry example_glm (57 / 64, 3 / 8, 0) (1, 0, 0)
          (connection_height (glm_distance example_glm (57 / 64, 3 / 8, 0) (1, 0, 0))))
       0 False 0)"
    using two_vertex_init[of example_glm id "(1, 0, 0)" "(57 / 64, 3 / 8, 0)" example_rnd]
    by (simp add: example_glm_def example_rnd_def min_distance_def)
  then show ?thesis
    by (simp add: example_state_def example_cities_def example_mesh01_def example_mesh10_def
        example_glm_def)
qed

lemma example_50: "ticks 50 (example_state 0 False 0) = Some (example_state (8388605 / 8388608) False 0)"
  unfolding example_state_def by (rule two_vertex_50)

lemma example_51:
  "ticks 51 (example_state 0 False 0) =
     Some (example_state (8556377 / 8388608) True (5368709 / 268435456))"
  unfolding example_state_def by (rule two_vertex_51)

lemma three_init:
  "initialize_connections example_glm example_rnd (initialize_graph id three_cities) =
     Some (three_state 0 False 0)"
  by (simp add: initialize_connections_def initialize_graph_def connect_pair_def Let_def
      three_cities_def three_state_def example_state_def two_vertex_state_def
      example_mesh01_def example_mesh10_def example_glm_def example_rnd_def min_distance_def)

lemma three_tick:
  "ticks 1 (three_state 0 False 0) = Some (three_state (5368709 / 268435456) False 0)"
  by (simp add: step_connections_def step_vertex_def step_connection_def Let_def
      three_state_def example_state_def two_vertex_state_def advance_0)

lemma example_distances_euclidean:
  "list_all (\<lambda>(a1, a2, a3). list_all (\<lambda>(b1, b2, b3).
       0 \<le> glm_distance example_glm (a1, a2, a3) (b1, b2, b3) \<and>
       (glm_distance example_glm (a1, a2, a3) (b1, b2, b3))\<^sup>2 =
         (a1 - b1)\<^sup>2 + (a2 - b2)\<^sup>2 + (a3 - b3)\<^sup>2) three_cities) three_cities"
  by (simp add: three_cities_def example_glm_def power2_eq_square)

section \<open>Facts about the consumers\<close>

lemma f32_double:
  assumes "x \<in> set elapsed_values"
  shows "f32 (x * 2) = x * 2"
proof -
  from assms obtain k where k: "k < 52" "x = elapsed_values ! k"
    by (metis in_set_conv_nth length_elapsed_values)
  show ?thesis
  proof (cases k)
    case 0
    then show ?thesis using k by (simp add: elapsed_values_0 f32_0)
  next
    case (Suc j)
    then have "j < 51" using k by simp
    from elapsed_values_float[OF this] obtain e n
      where en: "- 126 \<le> e" "8388608 \<le> n" "n < 16777216" "x = of_int n * pow2 (e - 23)"
      using k Suc by auto
    have "x * 2 = of_int n * pow2 ((e - 23) + 1)"
      by (simp only: en(4) pow2_add pow2_1 mult.assoc)
    then have x2: "x * 2 = of_int n * pow2 ((e + 1) - 23)" by (simp add: algebra_simps)
    have "f32 (of_int n * pow2 ((e + 1) - 23)) = of_int n * pow2 ((e + 1) - 23)"
      by (rule f32_exact) (use en in simp_all)
    then show ?thesis by (simp only: x2)
  qed
qed

lemma max_element_fold: "elapsed (max_element l cs) = fold max (map elapsed cs) (elapsed l)"
proof (induction cs arbitrary: l)
  case Nil
  show ?case by simp
next
  case (Cons c cs)
  have "elapsed (if elapsed l < elapsed c then c else l) = max (elapsed c) (elapsed l)"
    by (simp add: max_def)
  then show ?case using Cons.IH[of "if elapsed l < elapsed c then c else l"] by simp
qed

lemma max_element_elapsed: "elapsed (max_element c cs) = Max (set (map elapsed (c # cs)))"
  by (simp only: max_element_fold list.map Max.set_eq_fold)

lemma update_cities_loop_eq:
  "update_cities_loop g (vert_data, n) =
     (vert_data @ map city_entry (filter contributes g), n + length (filter contributes g))"
proof (induction g arbitrary: vert_data n)
  case Nil
  show ?case by simp
next
  case (Cons vertex vs)
  show ?case
  proof (cases "connections vertex")
    case Nil
    then show ?thesis using Cons.IH by (simp add: contributes_def)
  next
    case (Cons c cs)
    then have m: "elapsed (max_element c cs) = max_elapsed vertex"
      by (simp only: max_element_elapsed max_elapsed_def)
    show ?thesis
    proof (cases "max_elapsed vertex = 0")
      case True
      then show ?thesis using Cons m Cons.IH by (simp add: contributes_def)
    next
      case False
      then show ?thesis
        using Cons m Cons.IH by (simp add: contributes_def city_entry_def Let_def)
    qed
  qed
qed

lemma update_cities_mesh_eq:
  "update_cities_mesh g = (map city_entry (filter contributes g), length (filter contributes g))"
  by (simp add: update_cities_mesh_def update_cities_loop_eq)

lemma std_min_min: "std_min a b = min a b"
  by (simp add: std_min_def min_def)

lemma max_elapsed_on_chain:
  assumes "all_connections conn_ok g" "vertex \<in> set g" "connections vertex \<noteq> []"
  shows "max_elapsed vertex \<in> set elapsed_values"
proof -
  have "max_elapsed vertex \<in> set (map elapsed (connections vertex))"
    unfolding max_elapsed_def using assms(3) by (intro Max_in) simp_all
  then obtain c where "c \<in> set (connections vertex)" "max_elapsed vertex = elapsed c" by auto
  then show ?thesis using assms(1,2) by (auto simp: all_connections_def conn_ok_def)
qed

lemma city_entry_reached:
  assumes "all_connections conn_ok g" "vertex \<in> set g" "contributes vertex"
  shows "city_entry vertex = (position vertex, min 1 (max_elapsed vertex * 2))"
  using f32_double[OF max_elapsed_on_chain[OF assms(1,2)]] assms(3)
  by (simp add: city_entry_def std_min_min contributes_def)

lemma render_connections_set:
  "(t, msh) \<in> set (render_connections g) \<longleftrightarrow>
     (\<exists>vertex\<in>set g. \<exists>conn\<in>set (connections vertex). active conn \<and> t = elapsed conn \<and> msh = mesh conn)"
  by (auto simp: render_connections_def)

section \<open>Facts about the rounding error\<close>















section \<open>The cascade rule\<close>

text \<open>
  Claim C1. When the loop body of \<^verbatim>\<open>step_connections\<close> runs for an activating
  connection \<open>c\<close> (connection \<open>k\<close> of vertex \<open>i\<close>) whose \<^verbatim>\<open>elapsed\<close> reaches 1.0 by this
  addition, it succeeds, and in the resulting graph: \<open>c\<close> has the advanced
  \<^verbatim>\<open>elapsed\<close>; at the target vertex \<open>t\<close>, a connection is switched to active exactly
  when it was inactive and fewer than 3 inactive connections are stored before it;
  every other connection of the graph, in particular every connection of the target that
  was active already, is what it was; so the active ones do not count, and the number of
  connections switched is the smaller of 3 and the number of inactive ones.
\<close>

theorem cascade_rule:
  fixes g :: graph and i k :: nat
  defines "c \<equiv> connections (g ! i) ! k"
  defines "t \<equiv> nat (target_vertex c)"
  assumes i: "i < length g" and k: "k < length (connections (g ! i))"
    and activating: "active c" "elapsed c < 1"
    and completes: "1 \<le> advance (elapsed c)"
    and target: "0 \<le> target_vertex c" "target_vertex c < int (length g)"
  shows "\<exists>g'. step_connection i k g = Some g' \<and> length g' = length g \<and>
     (\<forall>v<length g. position (g' ! v) = position (g ! v) \<and>
        length (connections (g' ! v)) = length (connections (g ! v))) \<and>
     (\<forall>v<length g. \<forall>m<length (connections (g ! v)).
        connections (g' ! v) ! m =
          (if v = i \<and> m = k then c\<lparr>elapsed := advance (elapsed c)\<rparr>
           else if v = t \<and> \<not> active (connections (g ! v) ! m) \<and>
                   inactive_before (connections (g ! t)) m < 3
           then (connections (g ! v) ! m)\<lparr>active := True\<rparr>
           else connections (g ! v) ! m)) \<and>
     switched_on (connections (g ! t)) (connections (g' ! t)) =
       min 3 (length (filter (\<lambda>c. \<not> active c) (connections (g ! t))))"
proof -
  let ?c' = "c\<lparr>elapsed := advance (elapsed c)\<rparr>"
  let ?g1 = "g[i := (g ! i)\<lparr>connections := (connections (g ! i))[k := ?c']\<rparr>]"
  let ?cs1 = "connections (?g1 ! t)"
  let ?g' = "?g1[t := (?g1 ! t)\<lparr>connections := activate_connections 0 ?cs1\<rparr>]"
  have t: "t < length g" using target by (simp add: t_def)
  have step: "step_connection i k g = Some ?g'"
    using activating completes target
    by (simp add: step_connection_def Let_def c_def[symmetric] t_def[symmetric])
  have cs1: "?cs1 = (if t = i then (connections (g ! i))[k := ?c'] else connections (g ! t))"
    using t i by (simp add: nth_list_update)
  have act: "map active ?cs1 = map active (connections (g ! t))"
  proof (cases "t = i")
    case True
    have "map active ((connections (g ! i))[k := ?c']) =
        (map active (connections (g ! i)))[k := active (connections (g ! i) ! k)]"
      by (simp add: map_update c_def)
    also have "\<dots> = map active (connections (g ! i))"
      using k by (simp add: list_update_same_conv)
    finally show ?thesis using True cs1 by simp
  next
    case False
    then show ?thesis using cs1 by simp
  qed
  have len1: "length ?cs1 = length (connections (g ! t))"
    using act by (metis length_map)
  have nth: "connections (?g' ! v) ! m =
          (if v = i \<and> m = k then ?c'
           else if v = t \<and> \<not> active (connections (g ! v) ! m) \<and>
                   inactive_before (connections (g ! t)) m < 3
           then (connections (g ! v) ! m)\<lparr>active := True\<rparr>
           else connections (g ! v) ! m)"
    if v: "v < length g" and m: "m < length (connections (g ! v))" for v m
  proof (cases "v = t")
    case True
    have m1: "m < length ?cs1" using m True len1 by simp
    have "connections (?g' ! v) ! m = activate_connections 0 ?cs1 ! m"
      using True t by simp
    also have "\<dots> = (if \<not> active (?cs1 ! m) \<and> inactive_before ?cs1 m < 3
        then (?cs1 ! m)\<lparr>active := True\<rparr> else ?cs1 ! m)"
      using activate_connections_nth[of 0 m ?cs1] m1 by simp
    also have "inactive_before ?cs1 m = inactive_before (connections (g ! t)) m"
      by (rule inactive_before_cong[OF act])
    finally have eq: "connections (?g' ! v) ! m =
        (if \<not> active (?cs1 ! m) \<and> inactive_before (connections (g ! t)) m < 3
         then (?cs1 ! m)\<lparr>active := True\<rparr> else ?cs1 ! m)" .
    show ?thesis
    proof (cases "t = i \<and> m = k")
      case True
      then have "?cs1 ! m = ?c'" using cs1 k by simp
      then show ?thesis using eq True \<open>v = t\<close> activating by simp
    next
      case False
      then have "?cs1 ! m = connections (g ! t) ! m" using cs1 by auto
      then show ?thesis using eq False \<open>v = t\<close> by auto
    qed
  next
    case False
    then have "connections (?g' ! v) ! m = connections (?g1 ! v) ! m"
      using v by simp
    also have "\<dots> = (if v = i \<and> m = k then ?c' else connections (g ! v) ! m)"
      using v m i k by (auto simp: nth_list_update c_def)
    finally show ?thesis using False by simp
  qed
  have shape: "position (?g' ! v) = position (g ! v) \<and>
        length (connections (?g' ! v)) = length (connections (g ! v))" if "v < length g" for v
    using that len1 t i by (auto simp: nth_list_update length_activate_connections)
  have "switched_on (connections (g ! t)) (connections (?g' ! t)) =
      switched_on (connections (g ! t)) (activate_connections 0 ?cs1)"
    using t by simp
  also have "\<dots> = switched_on ?cs1 (activate_connections 0 ?cs1)"
    by (rule switched_on_cong[OF act[symmetric]]) (simp add: length_activate_connections)
  also have "\<dots> = min 3 (length (filter (\<lambda>c. \<not> active c) ?cs1))"
    using switched_on_activate_connections[of 0 ?cs1] by simp
  also have "\<dots> = min 3 (length (filter (\<lambda>c. \<not> active c) (connections (g ! t))))"
    using count_inactive_cong[OF act] by simp
  finally have count: "switched_on (connections (g ! t)) (connections (?g' ! t)) =
      min 3 (length (filter (\<lambda>c. \<not> active c) (connections (g ! t))))" .
  have "length ?g' = length g" by simp
  then show ?thesis using step shape nth count by blast
qed

theorem cascade_rule_witness:
  "active (connections (cascade_example ! 0) ! 0) \<and>
   elapsed (connections (cascade_example ! 0) ! 0) < 1 \<and>
   1 \<le> advance (elapsed (connections (cascade_example ! 0) ! 0)) \<and>
   (\<exists>g'. step_connection 0 0 cascade_example = Some g' \<and>
      elapsed (connections (g' ! 0) ! 0) = 8556377 / 8388608 \<and>
      map (\<lambda>m. active (connections (g' ! 1) ! m)) [0, 1, 2, 3, 4] = [True, True, True, True, False] \<and>
      connections (g' ! 1) ! 1 = connections (cascade_example ! 1) ! 1 \<and>
      switched_on (connections (cascade_example ! 1)) (connections (g' ! 1)) = 3)"
proof -
  let ?g = cascade_example
  have h: "0 < length ?g" "0 < length (connections (?g ! 0))"
    "active (connections (?g ! 0) ! 0)" "elapsed (connections (?g ! 0) ! 0) < 1"
    "1 \<le> advance (elapsed (connections (?g ! 0) ! 0))"
    "0 \<le> target_vertex (connections (?g ! 0) ! 0)"
    "target_vertex (connections (?g ! 0) ! 0) < int (length ?g)"
    by (simp_all add: cascade_example_def advance_last)
  from cascade_rule[OF h] obtain g' where step: "step_connection 0 0 ?g = Some g'"
    and nth: "\<forall>v<length ?g. \<forall>m<length (connections (?g ! v)).
        connections (g' ! v) ! m =
          (if v = 0 \<and> m = 0
           then (connections (?g ! 0) ! 0)\<lparr>elapsed := advance (elapsed (connections (?g ! 0) ! 0))\<rparr>
           else if v = nat (target_vertex (connections (?g ! 0) ! 0)) \<and>
                   \<not> active (connections (?g ! v) ! m) \<and>
                   inactive_before (connections (?g ! nat (target_vertex (connections (?g ! 0) ! 0)))) m < 3
           then (connections (?g ! v) ! m)\<lparr>active := True\<rparr>
           else connections (?g ! v) ! m)"
    and count: "switched_on (connections (?g ! nat (target_vertex (connections (?g ! 0) ! 0))))
        (connections (g' ! nat (target_vertex (connections (?g ! 0) ! 0)))) =
       min 3 (length (filter (\<lambda>c. \<not> active c)
         (connections (?g ! nat (target_vertex (connections (?g ! 0) ! 0))))))"
    by blast
  have e: "elapsed (connections (g' ! 0) ! 0) = 8556377 / 8388608"
    using nth[rule_format, of 0 0] by (simp add: cascade_example_def advance_last)
  have a0: "active (connections (g' ! 1) ! 0)"
    using nth[rule_format, of 1 0]
    by (simp add: cascade_example_def idle_connection_def inactive_before_def)
  have a1: "connections (g' ! 1) ! 1 = connections (?g ! 1) ! 1"
    using nth[rule_format, of 1 1]
    by (simp add: cascade_example_def idle_connection_def inactive_before_def)
  have a2: "active (connections (g' ! 1) ! 2)"
    using nth[rule_format, of 1 2]
    by (simp add: cascade_example_def idle_connection_def inactive_before_def)
  have a3: "active (connections (g' ! 1) ! 3)"
    using nth[rule_format, of 1 3]
    by (simp add: cascade_example_def idle_connection_def inactive_before_def)
  have a4: "\<not> active (connections (g' ! 1) ! 4)"
    using nth[rule_format, of 1 4]
    by (simp add: cascade_example_def idle_connection_def inactive_before_def)
  have a1': "active (connections (g' ! 1) ! 1)"
    using a1 by (simp add: cascade_example_def idle_connection_def)
  have c: "switched_on (connections (?g ! 1)) (connections (g' ! 1)) = 3"
    using count by (simp add: cascade_example_def idle_connection_def)
  show ?thesis using h step e a0 a1 a1' a2 a3 a4 c by simp
qed

section \<open>Target indices\<close>

text \<open>
  Claim C8. After the construction of the graph every \<^verbatim>\<open>target_vertex\<close> is an index
  of the graph, and this stays so: any number \<open>n\<close> of ticks runs without an access out
  of range (the ticks return a graph), every \<^verbatim>\<open>target_vertex\<close> of the graph they
  return is an index of it, and the next tick runs without an access out of range too.
\<close>

theorem target_indices_valid:
  assumes "initialize_connections G rnd (initialize_graph to_position cities) = Some g0"
  shows "targets_valid g0 \<and>
     (\<exists>g. ticks n g0 = Some g \<and> length g = length g0 \<and> targets_valid g \<and>
        (\<exists>g'. step_connections g = Some g'))"
proof -
  from reachable_state[OF assms, of n] obtain g
    where g: "ticks n g0 = Some g" "targets_valid g" "all_connections conn_ok g"
      and rel: "graph_rel (\<lambda>v m. conn_later) g0 g"
    by blast
  from tick_preserves[OF g(2,3)] have "\<exists>g'. step_connections g = Some g'" by blast
  then show ?thesis
    using initial_state(1)[OF assms] g graph_rel_length[OF rel] by blast
qed

theorem target_indices_valid_witness:
  "initialize_connections example_glm example_rnd (initialize_graph id example_cities) =
     Some (example_state 0 False 0) \<and>
   targets_valid (example_state 0 False 0) \<and>
   (\<exists>g. ticks 51 (example_state 0 False 0) = Some g \<and> length g = 2 \<and> targets_valid g \<and>
      (\<exists>g'. step_connections g = Some g'))"
proof -
  have len: "length (example_state 0 False 0) = 2"
    by (simp add: example_state_def two_vertex_state_def)
  from target_indices_valid[OF example_init, of 51]
  show ?thesis unfolding len using example_init by blast
qed

section \<open>Inactive connections\<close>

text \<open>
  Claim C9. In every state reached from the construction of the graph by any number of
  ticks, a connection whose activation flag is false has \<^verbatim>\<open>elapsed\<close> 0. So when the
  loop body, run for any connection \<open>k\<close> of any vertex \<open>i\<close>, switches such a connection
  on without writing its \<^verbatim>\<open>elapsed\<close>, the connection has \<^verbatim>\<open>elapsed\<close> 0 afterwards: in
  the graph the body returns, the connection still has \<^verbatim>\<open>elapsed\<close> 0, whether it was
  switched on or not.
\<close>

theorem inactive_elapsed_zero:
  assumes "initialize_connections G rnd (initialize_graph to_position cities) = Some g0"
    and "ticks n g0 = Some g"
    and "v < length g" "m < length (connections (g ! v))"
    and "\<not> active (connections (g ! v) ! m)"
  shows "elapsed (connections (g ! v) ! m) = 0 \<and>
     (\<forall>i k g'. i < length g \<longrightarrow> k < length (connections (g ! i)) \<longrightarrow>
        step_connection i k g = Some g' \<longrightarrow> elapsed (connections (g' ! v) ! m) = 0)"
proof -
  from reachable_state[OF assms(1), of n] assms(2)
  have g: "targets_valid g" "all_connections conn_ok g" by auto
  have z: "elapsed (connections (g ! v) ! m) = 0"
    using all_connections_nth[OF g(2) assms(3,4)] assms(5) by (simp add: conn_ok_def)
  have "elapsed (connections (g' ! v) ! m) = 0"
    if "i < length g" "k < length (connections (g ! i))" "step_connection i k g = Some g'"
    for i k g'
    using graph_rel_nth[OF step_connection_given[OF g(1) that] assms(3,4)] assms(5) z
    by (simp add: conn_step_def)
  then show ?thesis using z by blast
qed

theorem inactive_elapsed_zero_witness:
  "initialize_connections example_glm example_rnd (initialize_graph id example_cities) =
     Some (example_state 0 False 0) \<and>
   ticks 50 (example_state 0 False 0) = Some (example_state (8388605 / 8388608) False 0) \<and>
   \<not> active (connections (example_state (8388605 / 8388608) False 0 ! 1) ! 0) \<and>
   elapsed (connections (example_state (8388605 / 8388608) False 0 ! 1) ! 0) = 0 \<and>
   step_connection 0 0 (example_state (8388605 / 8388608) False 0) =
     Some (example_state (8556377 / 8388608) True 0) \<and>
   active (connections (example_state (8556377 / 8388608) True 0 ! 1) ! 0) \<and>
   elapsed (connections (example_state (8556377 / 8388608) True 0 ! 1) ! 0) = 0"
proof -
  let ?g = "example_state (8388605 / 8388608) False 0"
  have h: "1 < length ?g" "0 < length (connections (?g ! 1))" "\<not> active (connections (?g ! 1) ! 0)"
    by (simp_all add: example_state_def two_vertex_state_def)
  have s: "step_connection 0 0 ?g = Some (example_state (8556377 / 8388608) True 0)"
    by (simp add: example_state_def two_vertex_state_def step_connection_def advance_last Let_def)
  have i: "0 < length ?g" "0 < length (connections (?g ! 0))"
    by (simp_all add: example_state_def two_vertex_state_def)
  from inactive_elapsed_zero[OF example_init example_50 h]
  have "elapsed (connections (?g ! 1) ! 0) = 0"
    and "elapsed (connections (example_state (8556377 / 8388608) True 0 ! 1) ! 0) = 0"
    using i s by blast+
  then show ?thesis
    using example_init example_50 h s by (simp add: example_state_def two_vertex_state_def)
qed

section \<open>Progress of a connection\<close>

text \<open>
  Claim C2. Take any connection \<open>c\<close> in any state \<open>g\<close> reached from the construction of
  the graph by any number of ticks. Any number \<open>j\<close> of further ticks returns a graph in
  which the connection is active if \<open>c\<close> was (no tick switches a connection off), its
  \<^verbatim>\<open>elapsed\<close> is not below that of \<open>c\<close>, and is that of \<open>c\<close> if this had reached 1.0
  (no further advancement). One tick applies the addition of 0.02 at most once: to an
  active connection with \<^verbatim>\<open>elapsed\<close> below 1.0 exactly once, which makes \<^verbatim>\<open>elapsed\<close>
  greater, and to no connection with \<^verbatim>\<open>elapsed\<close> at or above 1.0.
\<close>

theorem elapsed_progress:
  fixes g :: graph and v m :: nat
  defines "c \<equiv> connections (g ! v) ! m"
  assumes "initialize_connections G rnd (initialize_graph to_position cities) = Some g0"
    and "ticks n g0 = Some g"
    and "v < length g" "m < length (connections (g ! v))"
  shows "(\<exists>g'. ticks j g = Some g' \<and>
        (active c \<longrightarrow> active (connections (g' ! v) ! m)) \<and>
        elapsed c \<le> elapsed (connections (g' ! v) ! m) \<and>
        (1 \<le> elapsed c \<longrightarrow> elapsed (connections (g' ! v) ! m) = elapsed c)) \<and>
     (\<exists>g1. step_connections g = Some g1 \<and>
        (active c \<and> elapsed c < 1 \<longrightarrow>
           elapsed (connections (g1 ! v) ! m) = advance (elapsed c) \<and>
           elapsed c < elapsed (connections (g1 ! v) ! m)) \<and>
        (elapsed (connections (g1 ! v) ! m) = elapsed c \<or>
         elapsed (connections (g1 ! v) ! m) = advance (elapsed c)))"
proof -
  from reachable_state[OF assms(2), of n] assms(3)
  have g: "targets_valid g" "all_connections conn_ok g" by auto
  have ok: "conn_ok c"
    unfolding c_def by (rule all_connections_nth[OF g(2) assms(4,5)])
  from ticks_effect[OF g, of j] obtain g'
    where g': "ticks j g = Some g'" and rel: "graph_rel (\<lambda>v m. conn_later) g g'"
    by blast
  have later: "conn_later c (connections (g' ! v) ! m)"
    unfolding c_def by (rule graph_rel_nth[OF rel assms(4,5)])
  from tick_preserves[OF g] obtain g1
    where g1: "step_connections g = Some g1" and rel1: "graph_rel (\<lambda>v m. conn_tick True) g g1"
    by blast
  have tick: "conn_tick True c (connections (g1 ! v) ! m)"
    unfolding c_def by (rule graph_rel_nth[OF rel1 assms(4,5)])
  have inc: "elapsed c < 1 \<Longrightarrow> elapsed c < advance (elapsed c)"
    using advance_on_chain[of "elapsed c"] ok by (simp add: conn_ok_def)
  have one: "(active c \<and> elapsed c < 1 \<longrightarrow>
           elapsed (connections (g1 ! v) ! m) = advance (elapsed c) \<and>
           elapsed c < elapsed (connections (g1 ! v) ! m)) \<and>
        (elapsed (connections (g1 ! v) ! m) = elapsed c \<or>
         elapsed (connections (g1 ! v) ! m) = advance (elapsed c))"
    using tick inc by (auto simp: conn_tick_def)
  have many: "(active c \<longrightarrow> active (connections (g' ! v) ! m)) \<and>
        elapsed c \<le> elapsed (connections (g' ! v) ! m) \<and>
        (1 \<le> elapsed c \<longrightarrow> elapsed (connections (g' ! v) ! m) = elapsed c)"
    using later by (simp add: conn_later_def)
  show ?thesis using g' many g1 one by blast
qed

theorem elapsed_progress_witness:
  "initialize_connections example_glm example_rnd (initialize_graph id example_cities) =
     Some (example_state 0 False 0) \<and>
   ticks 50 (example_state 0 False 0) = Some (example_state (8388605 / 8388608) False 0) \<and>
   (\<exists>g'. ticks 1 (example_state (8388605 / 8388608) False 0) = Some g' \<and>
      active (connections (g' ! 0) ! 0) \<and>
      8388605 / 8388608 \<le> elapsed (connections (g' ! 0) ! 0)) \<and>
   (\<exists>g1. step_connections (example_state (8388605 / 8388608) False 0) = Some g1 \<and>
      elapsed (connections (g1 ! 0) ! 0) = 8556377 / 8388608)"
proof -
  let ?g = "example_state (8388605 / 8388608) False 0"
  have h: "0 < length ?g" "0 < length (connections (?g ! 0))"
    by (simp_all add: example_state_def two_vertex_state_def)
  have c: "active (connections (?g ! 0) ! 0)" "elapsed (connections (?g ! 0) ! 0) = 8388605 / 8388608"
    by (simp_all add: example_state_def two_vertex_state_def)
  from elapsed_progress[OF example_init example_50 h, of 1] obtain g' g1
    where a: "ticks 1 ?g = Some g'"
        "active (connections (?g ! 0) ! 0) \<longrightarrow> active (connections (g' ! 0) ! 0)"
        "elapsed (connections (?g ! 0) ! 0) \<le> elapsed (connections (g' ! 0) ! 0)"
      and b: "step_connections ?g = Some g1"
        "active (connections (?g ! 0) ! 0) \<and> elapsed (connections (?g ! 0) ! 0) < 1 \<longrightarrow>
           elapsed (connections (g1 ! 0) ! 0) = advance (elapsed (connections (?g ! 0) ! 0)) \<and>
           elapsed (connections (?g ! 0) ! 0) < elapsed (connections (g1 ! 0) ! 0)"
    by blast
  have a2: "active (connections (g' ! 0) ! 0)" using a(2) c by simp
  have a3: "8388605 / 8388608 \<le> elapsed (connections (g' ! 0) ! 0)" using a(3) c by simp
  have b2: "elapsed (connections (g1 ! 0) ! 0) = 8556377 / 8388608"
    using b(2) c by (simp add: advance_last)
  show ?thesis using example_init example_50 a(1) a2 a3 b(1) b2 by blast
qed

section \<open>The dynamic vertex producer\<close>

text \<open>
  Claim C6. In every state reached from the construction of the graph by any number of
  ticks, \<^verbatim>\<open>update_cities_mesh\<close> writes, in the order of the vertices, one entry for each
  vertex that has a connection and whose largest \<^verbatim>\<open>elapsed\<close> is not 0, the entry being
  the position of the vertex with \<open>min 1 (elapsed * 2)\<close> for that largest \<^verbatim>\<open>elapsed\<close>;
  the count it reports is the number of these vertices, which is at most the number of
  vertices; and a vertex without connections at construction has none in the state and
  is not among them.
\<close>

theorem dynamic_vertex_producer:
  assumes "initialize_connections G rnd (initialize_graph to_position cities) = Some g0"
    and "ticks n g0 = Some g"
  shows "update_cities_mesh g =
       (map (\<lambda>vertex. (position vertex, min 1 (max_elapsed vertex * 2)))
          (filter (\<lambda>vertex. connections vertex \<noteq> [] \<and> max_elapsed vertex \<noteq> 0) g),
        length (filter (\<lambda>vertex. connections vertex \<noteq> [] \<and> max_elapsed vertex \<noteq> 0) g)) \<and>
     snd (update_cities_mesh g) = length (fst (update_cities_mesh g)) \<and>
     snd (update_cities_mesh g) \<le> length g \<and>
     (\<forall>v<length g. connections (g0 ! v) = [] \<longrightarrow>
        connections (g ! v) = [] \<and>
        g ! v \<notin> set (filter (\<lambda>vertex. connections vertex \<noteq> [] \<and> max_elapsed vertex \<noteq> 0) g))"
proof -
  from reachable_state[OF assms(1), of n] assms(2)
  have ok: "all_connections conn_ok g" and rel: "graph_rel (\<lambda>v m. conn_later) g0 g" by auto
  have c: "contributes = (\<lambda>vertex. connections vertex \<noteq> [] \<and> max_elapsed vertex \<noteq> 0)"
    by (auto simp: fun_eq_iff contributes_def)
  have "map city_entry (filter contributes g) =
      map (\<lambda>vertex. (position vertex, min 1 (max_elapsed vertex * 2))) (filter contributes g)"
    by (rule map_cong[OF refl]) (simp add: city_entry_reached[OF ok])
  then have eq: "update_cities_mesh g =
       (map (\<lambda>vertex. (position vertex, min 1 (max_elapsed vertex * 2))) (filter contributes g),
        length (filter contributes g))"
    by (simp add: update_cities_mesh_eq)
  have empty: "connections (g ! v) = []" if "v < length g" "connections (g0 ! v) = []" for v
    using graph_rel_connections[OF rel, of v] graph_rel_length[OF rel] that by simp
  show ?thesis using eq empty unfolding c by auto
qed

theorem dynamic_vertex_producer_witness:
  "initialize_connections example_glm example_rnd (initialize_graph id three_cities) =
     Some (three_state 0 False 0) \<and>
   ticks 1 (three_state 0 False 0) = Some (three_state (5368709 / 268435456) False 0) \<and>
   connections (three_state 0 False 0 ! 2) = [] \<and>
   update_cities_mesh (three_state (5368709 / 268435456) False 0) =
     ([((1, 0, 0), 5368709 / 134217728)], 1) \<and>
   connections (three_state (5368709 / 268435456) False 0 ! 2) = []"
proof -
  let ?g = "three_state (5368709 / 268435456) False 0"
  have f: "filter (\<lambda>vertex. connections vertex \<noteq> [] \<and> max_elapsed vertex \<noteq> 0) ?g = [?g ! 0]"
    by (simp add: three_state_def example_state_def two_vertex_state_def max_elapsed_def)
  have e: "connections (three_state 0 False 0 ! 2) = []" "2 < length ?g"
    by (simp_all add: three_state_def example_state_def two_vertex_state_def)
  have m: "(position (?g ! 0), min 1 (max_elapsed (?g ! 0) * 2)) = ((1, 0, 0), 5368709 / 134217728)"
    by (simp add: three_state_def example_state_def two_vertex_state_def max_elapsed_def)
  from dynamic_vertex_producer[OF three_init three_tick]
  have "update_cities_mesh ?g = ([((1, 0, 0), 5368709 / 134217728)], 1)"
    and "connections (?g ! 2) = []"
    using e unfolding f by (simp_all add: m)
  then show ?thesis using three_init three_tick e by simp
qed

section \<open>What the consumers read\<close>

text \<open>
  Claim C3, as the code has it. In every state reached from the construction of the
  graph by any number of ticks, the value given to \<^verbatim>\<open>tex_offset\<close> when an active
  connection is drawn is the \<^verbatim>\<open>elapsed\<close> stored in the connection, not clamped: it is
  one of the 52 values of the table, so at most \<open>8556377 / 8388608\<close> (about 1.0199996),
  and it is this number, above 1.0, whenever the connection has completed. What is
  clamped is the intensity of a city, which never exceeds 1.0.
\<close>

theorem consumers_read_stored_elapsed:
  assumes "initialize_connections G rnd (initialize_graph to_position cities) = Some g0"
    and "ticks n g0 = Some g"
  shows "(\<forall>(t, msh)\<in>set (render_connections g).
        (\<exists>vertex\<in>set g. \<exists>conn\<in>set (connections vertex).
           active conn \<and> t = elapsed conn \<and> msh = mesh conn) \<and>
        t \<in> set elapsed_values \<and> t \<le> 8556377 / 8388608 \<and>
        (1 \<le> t \<longrightarrow> t = 8556377 / 8388608)) \<and>
     (\<forall>(p, alpha)\<in>set (fst (update_cities_mesh g)). alpha \<le> 1)"
proof -
  from reachable_state[OF assms(1), of n] assms(2)
  have ok: "all_connections conn_ok g" by auto
  have top: "x = 8556377 / 8388608" if "x \<in> set elapsed_values" "1 \<le> x" for x
  proof -
    from that(1) obtain k where k: "k < 52" "x = elapsed_values ! k"
      by (metis in_set_conv_nth length_elapsed_values)
    have "\<not> k < 51" using elapsed_values_nth_below_1[of k] that(2) k by auto
    then have "k = 51" using k by simp
    then show ?thesis using k by (simp add: elapsed_values_51)
  qed
  have r: "(\<exists>vertex\<in>set g. \<exists>conn\<in>set (connections vertex).
           active conn \<and> t = elapsed conn \<and> msh = mesh conn) \<and>
        t \<in> set elapsed_values \<and> t \<le> 8556377 / 8388608 \<and>
        (1 \<le> t \<longrightarrow> t = 8556377 / 8388608)"
    if "(t, msh) \<in> set (render_connections g)" for t msh
  proof -
    from that obtain vertex conn where vc: "vertex \<in> set g" "conn \<in> set (connections vertex)"
      "active conn" "t = elapsed conn" "msh = mesh conn"
      by (auto simp: render_connections_set)
    then have "t \<in> set elapsed_values" using ok by (auto simp: all_connections_def conn_ok_def)
    then show ?thesis using vc elapsed_values_le top by blast
  qed
  have u: "alpha \<le> 1" if "(p, alpha) \<in> set (fst (update_cities_mesh g))" for p alpha
    using that by (auto simp: update_cities_mesh_eq city_entry_def std_min_def)
  show ?thesis using r u by blast
qed

theorem consumers_read_stored_elapsed_witness:
  "initialize_connections example_glm example_rnd (initialize_graph id example_cities) =
     Some (example_state 0 False 0) \<and>
   ticks 51 (example_state 0 False 0) =
     Some (example_state (8556377 / 8388608) True (5368709 / 268435456)) \<and>
   (8556377 / 8388608, example_mesh01) \<in>
     set (render_connections (example_state (8556377 / 8388608) True (5368709 / 268435456))) \<and>
   8556377 / 8388608 \<in> set elapsed_values"
proof -
  let ?g = "example_state (8556377 / 8388608) True (5368709 / 268435456)"
  have r: "(8556377 / 8388608, example_mesh01) \<in> set (render_connections ?g)"
    by (simp add: render_connections_def example_state_def two_vertex_state_def)
  from consumers_read_stored_elapsed[OF example_init example_51] r
  have "8556377 / 8388608 \<in> set elapsed_values" by blast
  then show ?thesis using example_init example_51 r by blast
qed

text \<open>
  Claim C3 as stated fails. The graph built for the two cities at distance \<open>25 / 64\<close>,
  the connection \<open>0 \<rightarrow> 1\<close> seeded, reaches after 51 ticks a state in which
  \<^verbatim>\<open>render_connections\<close> draws \<open>0 \<rightarrow> 1\<close> with \<^verbatim>\<open>tex_offset\<close> \<open>8556377 / 8388608\<close>,
  which exceeds 1.0.
\<close>

theorem consumers_clamped_counterexample:
  "initialize_connections example_glm example_rnd (initialize_graph id example_cities) =
     Some (example_state 0 False 0) \<and>
   ticks 51 (example_state 0 False 0) =
     Some (example_state (8556377 / 8388608) True (5368709 / 268435456)) \<and>
   render_connections (example_state (8556377 / 8388608) True (5368709 / 268435456)) =
     [(8556377 / 8388608, example_mesh01), (5368709 / 268435456, example_mesh10)] \<and>
   1 < fst (render_connections (example_state (8556377 / 8388608) True (5368709 / 268435456)) ! 0)"
  using example_init example_51
  by (simp add: render_connections_def example_state_def two_vertex_state_def)

section \<open>Two vertices: the scenario\<close>

text \<open>
  Claim C4, as the code has it. For two cities whose positions are at distance
  \<open>d < 0.75\<close> of each other, the construction creates the two connections \<open>0 \<rightarrow> 1\<close> and
  \<open>1 \<rightarrow> 0\<close>, with \<^verbatim>\<open>elapsed\<close> 0. If the random numbers seed \<open>0 \<rightarrow> 1\<close> alone, then after 50
  ticks \<open>0 \<rightarrow> 1\<close> has \<^verbatim>\<open>elapsed\<close> \<open>8388605 / 8388608\<close> (about 0.9999996: fifty single
  precision additions of 0.02 stay below 1.0) and \<open>1 \<rightarrow> 0\<close> is still inactive with
  \<^verbatim>\<open>elapsed\<close> 0. The 51st tick takes \<open>0 \<rightarrow> 1\<close> to \<open>8556377 / 8388608\<close>, which completes
  it and switches \<open>1 \<rightarrow> 0\<close> on; vertex 1 is visited later in that same tick, so after 51
  ticks \<open>1 \<rightarrow> 0\<close> is active with \<^verbatim>\<open>elapsed\<close> \<open>5368709 / 268435456\<close> (about 0.02).
\<close>

theorem two_vertex_scenario:
  assumes "glm_distance G (to_position c0) (to_position c1) = d"
    and "glm_distance G (to_position c1) (to_position c0) = d"
    and "d < 3 / 4"
    and "rnd 0 mod 150 = 0" "rnd 1 mod 150 \<noteq> 0"
  shows "\<exists>g0 g50 g51.
     initialize_connections G rnd (initialize_graph to_position [c0, c1]) = Some g0 \<and>
     map (map target_vertex \<circ> connections) g0 = [[1], [0]] \<and>
     map (map active \<circ> connections) g0 = [[True], [False]] \<and>
     map (map elapsed \<circ> connections) g0 = [[0], [0]] \<and>
     ticks 50 g0 = Some g50 \<and>
     map (map active \<circ> connections) g50 = [[True], [False]] \<and>
     map (map elapsed \<circ> connections) g50 = [[8388605 / 8388608], [0]] \<and>
     ticks 51 g0 = Some g51 \<and>
     map (map active \<circ> connections) g51 = [[True], [True]] \<and>
     map (map elapsed \<circ> connections) g51 = [[8556377 / 8388608], [5368709 / 268435456]]"
proof -
  let ?p0 = "to_position c0" and ?p1 = "to_position c1"
  let ?m01 = "build_connection_geometry G ?p0 ?p1 (connection_height d)"
  let ?m10 = "build_connection_geometry G ?p1 ?p0 (connection_height d)"
  let ?s = "two_vertex_state ?p0 ?p1 ?m01 ?m10"
  have "initialize_connections G rnd (initialize_graph to_position [c0, c1]) = Some (?s 0 False 0)"
    using two_vertex_init[of G to_position c0 c1 rnd] assms by (simp add: min_distance_def)
  moreover have "ticks 50 (?s 0 False 0) = Some (?s (8388605 / 8388608) False 0)"
    by (rule two_vertex_50)
  moreover have "ticks 51 (?s 0 False 0) = Some (?s (8556377 / 8388608) True (5368709 / 268435456))"
    by (rule two_vertex_51)
  moreover have "map (map target_vertex \<circ> connections) (?s x b y) = [[1], [0]]"
    "map (map active \<circ> connections) (?s x b y) = [[True], [b]]"
    "map (map elapsed \<circ> connections) (?s x b y) = [[x], [y]]" for x b y
    by (simp_all add: two_vertex_state_def)
  ultimately show ?thesis by blast
qed

theorem two_vertex_scenario_witness:
  "glm_distance example_glm (id (1, 0, 0)) (id (57 / 64, 3 / 8, 0)) = 25 / 64 \<and>
   glm_distance example_glm (id (57 / 64, 3 / 8, 0)) (id (1, 0, 0)) = 25 / 64 \<and>
   example_rnd 0 mod 150 = 0 \<and> example_rnd 1 mod 150 \<noteq> 0 \<and>
   (\<exists>g0 g51.
      initialize_connections example_glm example_rnd (initialize_graph id [(1, 0, 0), (57 / 64, 3 / 8, 0)]) = Some g0 \<and>
      ticks 51 g0 = Some g51 \<and>
      map (map elapsed \<circ> connections) g51 = [[8556377 / 8388608], [5368709 / 268435456]])"
proof -
  have h: "glm_distance example_glm (id (1, 0, 0)) (id (57 / 64, 3 / 8, 0)) = 25 / 64"
    "glm_distance example_glm (id (57 / 64, 3 / 8, 0)) (id (1, 0, 0)) = 25 / 64"
    "(25 / 64 :: rat) < 3 / 4" "example_rnd 0 mod 150 = 0" "example_rnd 1 mod 150 \<noteq> 0"
    by (simp_all add: example_glm_def example_rnd_def)
  from two_vertex_scenario[where G = example_glm and to_position = id and ?c0.0 = "(1, 0, 0)"
      and ?c1.0 = "(57 / 64, 3 / 8, 0)" and d = "25 / 64" and rnd = example_rnd, OF h]
  obtain g0 g51
    where a: "initialize_connections example_glm example_rnd (initialize_graph id [(1, 0, 0), (57 / 64, 3 / 8, 0)]) = Some g0"
      "ticks 51 g0 = Some g51"
      "map (map elapsed \<circ> connections) g51 = [[8556377 / 8388608], [5368709 / 268435456]]"
    by (elim exE conjE)
  show ?thesis
    by (intro conjI exI[where x = g0] exI[where x = g51]) (rule h(1) h(2) h(4) h(5) a)+
qed

text \<open>
  Claim C4 as stated fails. In the graph built for the two cities at distance
  \<open>25 / 64\<close>, the connection \<open>0 \<rightarrow> 1\<close> seeded, after 50 ticks \<open>0 \<rightarrow> 1\<close> has not
  reached 1.0 and \<open>1 \<rightarrow> 0\<close> is not active.
\<close>

theorem two_vertex_scenario_counterexample:
  "initialize_connections example_glm example_rnd (initialize_graph id example_cities) =
     Some (example_state 0 False 0) \<and>
   ticks 50 (example_state 0 False 0) = Some (example_state (8388605 / 8388608) False 0) \<and>
   elapsed (connections (example_state (8388605 / 8388608) False 0 ! 0) ! 0) < 1 \<and>
   \<not> active (connections (example_state (8388605 / 8388608) False 0 ! 1) ! 0)"
  using example_init example_50
  by (simp add: example_state_def two_vertex_state_def)

section \<open>The edge geometry generator\<close>



section \<open>Meshes depend on the endpoints only\<close>

lemma new_connections_mesh:
  "c \<in> set (new_connections G rnd P i n js) \<Longrightarrow>
   mesh c = build_connection_geometry G (P ! i) (P ! nat (target_vertex c))
     (connection_height (glm_distance G (P ! i) (P ! nat (target_vertex c))))"
  by (induction js arbitrary: n) (auto split: if_splits)

lemma graph_rel_map:
  assumes "graph_rel R g g'"
    and "\<And>v m c c'. R v m c c' \<Longrightarrow> f c' = f c"
  shows "map (map f \<circ> connections) g' = map (map f \<circ> connections) g"
proof (rule nth_equalityI)
  show "length (map (map f \<circ> connections) g') = length (map (map f \<circ> connections) g)"
    using assms(1) by (simp add: graph_rel_length)
next
  fix v assume "v < length (map (map f \<circ> connections) g')"
  then have v: "v < length g" using assms(1) by (simp add: graph_rel_length)
  have "map f (connections (g' ! v)) = map f (connections (g ! v))"
  proof (rule nth_equalityI)
    show "length (map f (connections (g' ! v))) = length (map f (connections (g ! v)))"
      using graph_rel_connections[OF assms(1) v] by simp
  next
    fix m assume "m < length (map f (connections (g' ! v)))"
    then have m: "m < length (connections (g ! v))"
      using graph_rel_connections[OF assms(1) v] by simp
    show "map f (connections (g' ! v)) ! m = map f (connections (g ! v)) ! m"
      using assms(2)[OF graph_rel_nth[OF assms(1) v m]] m graph_rel_connections[OF assms(1) v]
      by simp
  qed
  then show "map (map f \<circ> connections) g' ! v = map (map f \<circ> connections) g ! v"
    using v assms(1) by (simp add: graph_rel_length)
qed

text \<open>
  Claim C10. \<^verbatim>\<open>build_connection_geometry\<close> reads its three arguments, its local
  constants and the vector operations of the library, and nothing else, so it is
  embedded as a function of these: two invocations with the same source position,
  target position and height return the same samples. In the program this shows as
  follows. The mesh of every connection is this function of the positions of the two
  vertices and of the height computed from their distance; for two different sequences
  of random numbers (the one piece of state hidden from the construction) the meshes
  built are the same; and no number of ticks changes a mesh.
\<close>

theorem connection_geometry_deterministic:
  assumes "initialize_connections G rnd (initialize_graph to_position cities) = Some g"
    and "initialize_connections G rnd' (initialize_graph to_position cities) = Some g'"
    and "ticks n g = Some gn"
  shows "(\<forall>v<length g. \<forall>m<length (connections (g ! v)).
        mesh (connections (g ! v) ! m) =
          build_connection_geometry G (position (g ! v))
            (position (g ! nat (target_vertex (connections (g ! v) ! m))))
            (connection_height (glm_distance G (position (g ! v))
               (position (g ! nat (target_vertex (connections (g ! v) ! m))))))) \<and>
     map (map mesh \<circ> connections) g' = map (map mesh \<circ> connections) g \<and>
     map (map mesh \<circ> connections) gn = map (map mesh \<circ> connections) g"
proof -
  let ?P = "map to_position cities"
  let ?N = "length cities"
  note r = initialize_connections_result[OF assms(1)]
  note r' = initialize_connections_result[OF assms(2)]
  have valid: "targets_valid g" by (rule initial_state(1)[OF assms(1)])
  have one: "mesh (connections (g ! v) ! m) =
          build_connection_geometry G (position (g ! v))
            (position (g ! nat (target_vertex (connections (g ! v) ! m))))
            (connection_height (glm_distance G (position (g ! v))
               (position (g ! nat (target_vertex (connections (g ! v) ! m))))))"
    if v: "v < length g" and m: "m < length (connections (g ! v))" for v m
  proof -
    let ?c = "connections (g ! v) ! m"
    from r(3)[of v] v r(1) obtain k
      where k: "connections (g ! v) = new_connections G rnd ?P v k [0..<?N]" by auto
    have "?c \<in> set (new_connections G rnd ?P v k [0..<?N])"
      using m k by (metis nth_mem)
    from new_connections_mesh[OF this]
    have me: "mesh ?c = build_connection_geometry G (?P ! v) (?P ! nat (target_vertex ?c))
        (connection_height (glm_distance G (?P ! v) (?P ! nat (target_vertex ?c))))" .
    have t: "nat (target_vertex ?c) < length g"
      using targets_valid_nth[OF valid v m] by linarith
    have p: "?P ! v = position (g ! v)" "?P ! nat (target_vertex ?c) = position (g ! nat (target_vertex ?c))"
      using r(2) v t by (metis nth_map)+
    show ?thesis using me by (simp only: p)
  qed
  have two: "map (map mesh \<circ> connections) g' = map (map mesh \<circ> connections) g"
  proof (rule nth_equalityI)
    show "length (map (map mesh \<circ> connections) g') = length (map (map mesh \<circ> connections) g)"
      using r(1) r'(1) by simp
  next
    fix v assume "v < length (map (map mesh \<circ> connections) g')"
    then have v: "v < ?N" using r'(1) by simp
    from r(3)[OF v] obtain k
      where k: "connections (g ! v) = new_connections G rnd ?P v k [0..<?N]" by blast
    from r'(3)[OF v] obtain k'
      where k': "connections (g' ! v) = new_connections G rnd' ?P v k' [0..<?N]" by blast
    have "map mesh (connections (g' ! v)) = map mesh (connections (g ! v))"
      by (simp only: k k' mesh_new_connections)
    then show "map (map mesh \<circ> connections) g' ! v = map (map mesh \<circ> connections) g ! v"
      using v r(1) r'(1) by simp
  qed
  from reachable_state[OF assms(1), of n] assms(3)
  have "graph_rel (\<lambda>v m. conn_later) g gn" by auto
  then have three: "map (map mesh \<circ> connections) gn = map (map mesh \<circ> connections) g"
    by (rule graph_rel_map) (simp add: conn_later_def)
  show ?thesis using one two three by blast
qed

theorem connection_geometry_deterministic_witness:
  "initialize_connections example_glm example_rnd (initialize_graph id example_cities) =
     Some (example_state 0 False 0) \<and>
   ticks 51 (example_state 0 False 0) =
     Some (example_state (8556377 / 8388608) True (5368709 / 268435456)) \<and>
   map (map mesh \<circ> connections) (example_state (8556377 / 8388608) True (5368709 / 268435456)) =
     map (map mesh \<circ> connections) (example_state 0 False 0) \<and>
   mesh (connections (example_state 0 False 0 ! 0) ! 0) =
     build_connection_geometry example_glm (1, 0, 0) (57 / 64, 3 / 8, 0) (connection_height (25 / 64))"
proof -
  let ?g = "example_state 0 False 0"
  note c = connection_geometry_deterministic[OF example_init example_init example_51]
  from c have a: "map (map mesh \<circ> connections) (example_state (8556377 / 8388608) True (5368709 / 268435456)) =
     map (map mesh \<circ> connections) ?g"
    by blast
  have h: "0 < length ?g" "0 < length (connections (?g ! 0))"
    by (simp_all add: example_state_def two_vertex_state_def)
  from c h have "mesh (connections (?g ! 0) ! 0) =
          build_connection_geometry example_glm (position (?g ! 0))
            (position (?g ! nat (target_vertex (connections (?g ! 0) ! 0))))
            (connection_height (glm_distance example_glm (position (?g ! 0))
               (position (?g ! nat (target_vertex (connections (?g ! 0) ! 0))))))"
    by blast
  then have b: "mesh (connections (?g ! 0) ! 0) =
     build_connection_geometry example_glm (1, 0, 0) (57 / 64, 3 / 8, 0) (connection_height (25 / 64))"
    by (simp add: example_state_def two_vertex_state_def example_glm_def)
  show ?thesis using example_init example_51 a b by blast
qed

section \<open>Coverage of the close pairs\<close>

text \<open>
  Claim C5. The construction of the graph from a city list (of at most \<open>2\<^sup>3\<^sup>1 - 1\<close>
  cities, so that the \<^verbatim>\<open>int\<close> loop counters can index it) returns a graph with one
  vertex for each city, at its position, and the targets of the connections of vertex
  \<open>i\<close> are, in increasing order and once each, the indices \<open>j \<noteq> i\<close> whose position is
  at distance below 0.75 of that of \<open>i\<close>: a connection \<open>i \<rightarrow> j\<close> exists for each such
  pair and for no other pair, whatever the random numbers are.
\<close>

theorem connections_cover_close_pairs:
  assumes "length cities \<le> 2147483647"
  shows "\<exists>g. initialize_connections G rnd (initialize_graph to_position cities) = Some g \<and>
     length g = length cities \<and>
     (\<forall>i<length cities.
        position (g ! i) = to_position (cities ! i) \<and>
        map target_vertex (connections (g ! i)) =
          map int (filter (\<lambda>j. j \<noteq> i \<and>
              glm_distance G (to_position (cities ! i)) (to_position (cities ! j)) < 3 / 4)
            [0..<length cities]))"
proof -
  let ?P = "map to_position cities"
  let ?N = "length cities"
  have "length (initialize_graph to_position cities) = ?N" by (simp add: initialize_graph_def)
  then obtain g where g: "initialize_connections G rnd (initialize_graph to_position cities) = Some g"
    using assms by (simp add: initialize_connections_def)
  note r = initialize_connections_result[OF g]
  have "position (g ! i) = to_position (cities ! i) \<and>
        map target_vertex (connections (g ! i)) =
          map int (filter (\<lambda>j. j \<noteq> i \<and>
              glm_distance G (to_position (cities ! i)) (to_position (cities ! j)) < 3 / 4)
            [0..<?N])" if i: "i < ?N" for i
  proof -
    have p: "position (g ! i) = to_position (cities ! i)"
      using r(1,2) i by (metis nth_map)
    from r(3)[OF i] obtain k
      where k: "connections (g ! i) = new_connections G rnd ?P i k [0..<?N]" by blast
    have "map target_vertex (connections (g ! i)) =
        map int (filter (\<lambda>j. j \<noteq> i \<and> glm_distance G (?P ! i) (?P ! j) < min_distance) [0..<?N])"
      by (simp only: k target_vertex_new_connections)
    also have "filter (\<lambda>j. j \<noteq> i \<and> glm_distance G (?P ! i) (?P ! j) < min_distance) [0..<?N] =
        filter (\<lambda>j. j \<noteq> i \<and>
              glm_distance G (to_position (cities ! i)) (to_position (cities ! j)) < 3 / 4) [0..<?N]"
      using i by (intro filter_cong) (simp_all add: min_distance_def)
    finally show ?thesis using p by simp
  qed
  then show ?thesis using g r(1) by blast
qed

theorem connections_cover_close_pairs_witness:
  "length three_cities \<le> 2147483647 \<and>
   initialize_connections example_glm example_rnd (initialize_graph id three_cities) =
     Some (three_state 0 False 0) \<and>
   map (map target_vertex \<circ> connections) (three_state 0 False 0) = [[1], [0], []] \<and>
   map target_vertex (connections (three_state 0 False 0 ! 0)) =
     map int (filter (\<lambda>j. j \<noteq> 0 \<and>
         glm_distance example_glm (id (three_cities ! 0)) (id (three_cities ! j)) < 3 / 4)
       [0..<length three_cities])"
proof -
  have h: "length three_cities \<le> 2147483647" by (simp add: three_cities_def)
  from connections_cover_close_pairs[OF h, of example_glm example_rnd id] three_init
  have "\<forall>i<length three_cities.
        map target_vertex (connections (three_state 0 False 0 ! i)) =
          map int (filter (\<lambda>j. j \<noteq> i \<and>
              glm_distance example_glm (id (three_cities ! i)) (id (three_cities ! j)) < 3 / 4)
            [0..<length three_cities])"
    by auto
  moreover have "0 < length three_cities" by (simp add: three_cities_def)
  ultimately have a: "map target_vertex (connections (three_state 0 False 0 ! 0)) =
     map int (filter (\<lambda>j. j \<noteq> 0 \<and>
         glm_distance example_glm (id (three_cities ! 0)) (id (three_cities ! j)) < 3 / 4)
       [0..<length three_cities])"
    by blast
  have b: "map (map target_vertex \<circ> connections) (three_state 0 False 0) = [[1], [0], []]"
    by (simp add: three_state_def example_state_def two_vertex_state_def)
  show ?thesis using h three_init a b by blast
qed

end
